theory Spec2Isabelle
  imports Main
begin

section \<open>The memory model\<close>

text \<open>
  A handle (\<^verbatim>\<open>linked_ptr<T>\<close>) lives at an address; its three fields \<^verbatim>\<open>next\<close>,
  \<^verbatim>\<open>prev\<close> (inherited from \<^verbatim>\<open>super_linked_ptr\<close>) and \<^verbatim>\<open>data\<close> are read and written
  through that address, so the memory is one function per field.  The field \<^verbatim>\<open>next\<close> is
  called \<open>nxt\<close> because \<open>next\<close> is a keyword of the proof language.  A raw object
  pointer \<^verbatim>\<open>T*\<close> is an address too, \<^verbatim>\<open>nullptr\<close> being 0.  The list \<open>deleted\<close> is the log
  of every \<^verbatim>\<open>delete data\<close> that was executed, most recent first.

  The converting members convert a \<^verbatim>\<open>U*\<close> to a \<^verbatim>\<open>T*\<close>, which may change the address
  (a base class that does not lie at the start of the object).  The classes \<^verbatim>\<open>T\<close>
  and \<^verbatim>\<open>U\<close> are not part of the repository, so wherever the source converts a pointer
  the conversion is a parameter \<open>cv\<close> of the operation.
\<close>

type_synonym addr = nat
type_synonym ptr = nat

definition nullptr :: ptr where
  "nullptr = 0"

record heap =
  nxt :: "addr \<Rightarrow> addr"
  prev :: "addr \<Rightarrow> addr"
  data :: "addr \<Rightarrow> ptr"
  deleted :: "ptr list"

section \<open>\<^verbatim>\<open>super_linked_ptr\<close>\<close>

text \<open>\<^verbatim>\<open>super_linked_ptr() : next(this), prev(this) {}\<close>\<close>

definition super_linked_ptr :: "heap \<Rightarrow> addr \<Rightarrow> heap" where
  "super_linked_ptr s this =
     (let s1 = s\<lparr>nxt := (nxt s)(this := this)\<rparr>
      in s1\<lparr>prev := (prev s1)(this := this)\<rparr>)"

text \<open>
  \<^verbatim>\<open>insert(other)\<close>, insert this after other:
  \<^verbatim>\<open>other.next->prev = this; next = other.next; prev = &other; other.next = this;\<close>
\<close>

definition insert_ring :: "heap \<Rightarrow> addr \<Rightarrow> addr \<Rightarrow> heap" where
  "insert_ring s this other =
     (let s1 = s\<lparr>prev := (prev s)(nxt s other := this)\<rparr>;
          s2 = s1\<lparr>nxt := (nxt s1)(this := nxt s1 other)\<rparr>;
          s3 = s2\<lparr>prev := (prev s2)(this := other)\<rparr>
      in s3\<lparr>nxt := (nxt s3)(other := this)\<rparr>)"

text \<open>
  \<^verbatim>\<open>remove()\<close>:
  \<^verbatim>\<open>next->prev = prev; prev->next = next; next = prev = this;\<close>
\<close>

definition remove_ring :: "heap \<Rightarrow> addr \<Rightarrow> heap" where
  "remove_ring s this =
     (let s1 = s\<lparr>prev := (prev s)(nxt s this := prev s this)\<rparr>;
          s2 = s1\<lparr>nxt := (nxt s1)(prev s1 this := nxt s1 this)\<rparr>;
          s3 = s2\<lparr>prev := (prev s2)(this := this)\<rparr>
      in s3\<lparr>nxt := (nxt s3)(this := prev s3 this)\<rparr>)"

section \<open>\<^verbatim>\<open>linked_ptr\<close>\<close>

text \<open>\<^verbatim>\<open>unique()\<close> and the private \<^verbatim>\<open>is_unique()\<close>.\<close>

definition unique :: "heap \<Rightarrow> addr \<Rightarrow> bool" where
  "unique s this = (nxt s this = this \<and> prev s this = this \<and> data s this \<noteq> nullptr)"

definition is_unique :: "heap \<Rightarrow> addr \<Rightarrow> bool" where
  "is_unique s this = (nxt s this = this \<and> prev s this = this)"

text \<open>\<^verbatim>\<open>delete_if_unique()\<close>: \<^verbatim>\<open>if (unique()) { delete data; data = nullptr; }\<close>\<close>

definition delete_if_unique :: "heap \<Rightarrow> addr \<Rightarrow> heap" where
  "delete_if_unique s this =
     (if unique s this
      then (let s1 = s\<lparr>deleted := data s this # deleted s\<rparr>
            in s1\<lparr>data := (data s1)(this := nullptr)\<rparr>)
      else s)"

text \<open>\<^verbatim>\<open>~linked_ptr()\<close>: \<^verbatim>\<open>delete_if_unique(); remove();\<close>\<close>

definition dtor :: "heap \<Rightarrow> addr \<Rightarrow> heap" where
  "dtor s this = remove_ring (delete_if_unique s this) this"

text \<open>
  \<^verbatim>\<open>explicit linked_ptr(T *ptr = nullptr)\<close>: the base constructor, then \<^verbatim>\<open>data(ptr)\<close>.
\<close>

definition ctor :: "heap \<Rightarrow> addr \<Rightarrow> ptr \<Rightarrow> heap" where
  "ctor s this p =
     (let s1 = super_linked_ptr s this
      in s1\<lparr>data := (data s1)(this := p)\<rparr>)"


text \<open>
  \<^verbatim>\<open>linked_ptr(const linked_ptr<T> &other)\<close>: the base constructor, \<^verbatim>\<open>data(other.data)\<close>,
  then \<^verbatim>\<open>insert(other)\<close>.
\<close>

definition copy_ctor :: "heap \<Rightarrow> addr \<Rightarrow> addr \<Rightarrow> heap" where
  "copy_ctor s this other =
     (let s1 = super_linked_ptr s this;
          s2 = s1\<lparr>data := (data s1)(this := data s1 other)\<rparr>
      in insert_ring s2 this other)"

text \<open>
  \<^verbatim>\<open>linked_ptr(const linked_ptr<U> &other)\<close>: the base constructor,
  \<^verbatim>\<open>data = static_cast<T*>(other.data); insert(other);\<close>
  \<open>cv\<close> is the \<^verbatim>\<open>static_cast\<close> from \<^verbatim>\<open>U*\<close> to \<^verbatim>\<open>T*\<close>.
\<close>

definition conv_copy_ctor :: "(ptr \<Rightarrow> ptr) \<Rightarrow> heap \<Rightarrow> addr \<Rightarrow> addr \<Rightarrow> heap" where
  "conv_copy_ctor cv s this other =
     (let s1 = super_linked_ptr s this;
          s2 = s1\<lparr>data := (data s1)(this := cv (data s1 other))\<rparr>
      in insert_ring s2 this other)"

text \<open>
  \<^verbatim>\<open>linked_ptr(linked_ptr<T> &&other)\<close>: the base constructor, then
  \<^verbatim>\<open>insert(other); data = other.data; other.remove(); other.data = nullptr;\<close>
\<close>

definition move_ctor :: "heap \<Rightarrow> addr \<Rightarrow> addr \<Rightarrow> heap" where
  "move_ctor s this other =
     (let s1 = super_linked_ptr s this;
          s2 = insert_ring s1 this other;
          s3 = s2\<lparr>data := (data s2)(this := data s2 other)\<rparr>;
          s4 = remove_ring s3 other
      in s4\<lparr>data := (data s4)(other := nullptr)\<rparr>)"

text \<open>
  \<^verbatim>\<open>operator=(const linked_ptr<T>& other)\<close>:
  \<^verbatim>\<open>if (&other != this) { this->~linked_ptr(); new (this) linked_ptr(other); }\<close>
\<close>

definition copy_assign :: "heap \<Rightarrow> addr \<Rightarrow> addr \<Rightarrow> heap" where
  "copy_assign s this other =
     (if other \<noteq> this then copy_ctor (dtor s this) this other else s)"

text \<open>
  \<^verbatim>\<open>operator=(linked_ptr<T>&& other)\<close>:
  \<^verbatim>\<open>this->~linked_ptr(); new (this) linked_ptr(other); other.remove(); other.data = nullptr;\<close>
  Inside the body \<^verbatim>\<open>other\<close> is an lvalue, so the placement new runs the copy constructor.
\<close>

definition move_assign :: "heap \<Rightarrow> addr \<Rightarrow> addr \<Rightarrow> heap" where
  "move_assign s this other =
     (let s1 = dtor s this;
          s2 = copy_ctor s1 this other;
          s3 = remove_ring s2 other
      in s3\<lparr>data := (data s3)(other := nullptr)\<rparr>)"

text \<open>
  \<^verbatim>\<open>operator=(linked_ptr<U> const &other)\<close>:
  \<^verbatim>\<open>if (next != other.next && prev != other.prev) { this->~linked_ptr(); new (this) linked_ptr(other); }\<close>
  The placement new runs the converting copy constructor, with its conversion \<open>cv\<close>.
\<close>

definition conv_assign :: "(ptr \<Rightarrow> ptr) \<Rightarrow> heap \<Rightarrow> addr \<Rightarrow> addr \<Rightarrow> heap" where
  "conv_assign cv s this other =
     (if nxt s this \<noteq> nxt s other \<and> prev s this \<noteq> prev s other
      then conv_copy_ctor cv (dtor s this) this other
      else s)"

text \<open>\<^verbatim>\<open>reset(T* ptr = nullptr)\<close>: \<^verbatim>\<open>delete_if_unique(); remove(); data = ptr;\<close>\<close>

definition reset :: "heap \<Rightarrow> addr \<Rightarrow> ptr \<Rightarrow> heap" where
  "reset s this p =
     (let s1 = delete_if_unique s this;
          s2 = remove_ring s1 this
      in s2\<lparr>data := (data s2)(this := p)\<rparr>)"

text \<open>\<^verbatim>\<open>explicit operator bool()\<close> and \<^verbatim>\<open>get()\<close>.\<close>

definition operator_bool :: "heap \<Rightarrow> addr \<Rightarrow> bool" where
  "operator_bool s this = (data s this \<noteq> nullptr)"

definition get :: "heap \<Rightarrow> addr \<Rightarrow> ptr" where
  "get s this = data s this"

text \<open>
  \<^verbatim>\<open>operator==\<close>, \<^verbatim>\<open>operator<\<close> and \<^verbatim>\<open>operator!=\<close> between a \<^verbatim>\<open>linked_ptr<T>\<close> and a
  \<^verbatim>\<open>linked_ptr<U>\<close>: \<^verbatim>\<open>data == rhs.data\<close> and so on.  The language compares a \<^verbatim>\<open>T*\<close>
  with a \<^verbatim>\<open>U*\<close> after converting both to their common pointer type: \<open>cl\<close> converts
  the left pointer and \<open>cr\<close> the right one (one of the two is the identity, and both
  are when \<^verbatim>\<open>T\<close> and \<^verbatim>\<open>U\<close> are the same type).
\<close>

definition operator_eq ::
  "(ptr \<Rightarrow> ptr) \<Rightarrow> (ptr \<Rightarrow> ptr) \<Rightarrow> heap \<Rightarrow> addr \<Rightarrow> addr \<Rightarrow> bool" where
  "operator_eq cl cr s this rhs = (cl (data s this) = cr (data s rhs))"

definition operator_lt ::
  "(ptr \<Rightarrow> ptr) \<Rightarrow> (ptr \<Rightarrow> ptr) \<Rightarrow> heap \<Rightarrow> addr \<Rightarrow> addr \<Rightarrow> bool" where
  "operator_lt cl cr s this rhs = (cl (data s this) < cr (data s rhs))"

definition operator_ne ::
  "(ptr \<Rightarrow> ptr) \<Rightarrow> (ptr \<Rightarrow> ptr) \<Rightarrow> heap \<Rightarrow> addr \<Rightarrow> addr \<Rightarrow> bool" where
  "operator_ne cl cr s this rhs = (cl (data s this) \<noteq> cr (data s rhs))"

text \<open>
  \<^verbatim>\<open>std::swap(x, y)\<close> on two locations of one field: \<^verbatim>\<open>tmp = x; x = y; y = tmp;\<close>
\<close>

definition std_swap :: "(addr \<Rightarrow> 'v) \<Rightarrow> addr \<Rightarrow> addr \<Rightarrow> (addr \<Rightarrow> 'v)" where
  "std_swap f x y = (let tmp = f x; f1 = f(x := f y) in f1(y := tmp))"

text \<open>
  \<^verbatim>\<open>swap(linked_ptr<T>& other)\<close>.  \<open>s1\<close> is the memory after the first
  \<^verbatim>\<open>swap(data, other.data)\<close>.  When only \<open>other\<close> is a singleton the data are exchanged
  back and \<^verbatim>\<open>other.swap(*this)\<close> is the recursive call; it runs at most once, since in
  that call \<open>this\<close> is the singleton.
\<close>

function swap :: "heap \<Rightarrow> addr \<Rightarrow> addr \<Rightarrow> heap" where
  "swap s this other =
     (if data s other = data s this then s
      else
        (let s1 = s\<lparr>data := std_swap (data s) this other\<rparr>
         in if is_unique s1 this
            then
              (if is_unique s1 other then s1
               else
                 (let s2 = s1\<lparr>prev := (prev s1)(nxt s1 other := this)\<rparr>;
                      s3 = s2\<lparr>nxt := (nxt s2)(this := nxt s2 other)\<rparr>;
                      s4 = s3\<lparr>nxt := (nxt s3)(other := this)\<rparr>;
                      s5 = s4\<lparr>prev := (prev s4)(this := other)\<rparr>
                  in remove_ring s5 other))
            else if is_unique s1 other
            then swap (s1\<lparr>data := std_swap (data s1) this other\<rparr>) other this
            else
              (let s2 = s1\<lparr>prev := std_swap (prev s1) (nxt s1 other) (nxt s1 this)\<rparr>;
                   s3 = s2\<lparr>nxt := std_swap (nxt s2) (prev s2 other) (prev s2 this)\<rparr>;
                   s4 = s3\<lparr>nxt := std_swap (nxt s3) other this\<rparr>
               in s4\<lparr>prev := std_swap (prev s4) other this\<rparr>)))"
  by pat_completeness auto
termination
  by (relation "measure (\<lambda>(s, this, other). if is_unique s other \<and> \<not> is_unique s this then 1 else 0)")
     (auto simp: is_unique_def)

section \<open>Rings\<close>

text \<open>
  \<open>links s a xs\<close>: starting at \<open>a\<close>, following \<^verbatim>\<open>next\<close> visits exactly the nodes \<open>xs\<close>
  in order, and \<^verbatim>\<open>prev\<close> leads back at every step.  A ring is a non-empty list of
  distinct handles that is linked in this way from its last member round to its last
  member; its size is the length of the list.  \<open>owns s r p\<close>: \<open>r\<close> is a ring whose
  members all hold the address \<open>p\<close>.
\<close>

primrec links :: "heap \<Rightarrow> addr \<Rightarrow> addr list \<Rightarrow> bool" where
  "links s a [] = True"
| "links s a (x # xs) = (nxt s a = x \<and> prev s x = a \<and> links s x xs)"

definition is_ring :: "heap \<Rightarrow> addr list \<Rightarrow> bool" where
  "is_ring s r = (r \<noteq> [] \<and> distinct r \<and> links s (last r) r)"

definition owns :: "heap \<Rightarrow> addr list \<Rightarrow> ptr \<Rightarrow> bool" where
  "owns s r p = (is_ring s r \<and> list_all (\<lambda>a. data s a = p) r)"

text \<open>A memory in which no handle has been constructed yet, for the examples.\<close>

definition heap0 :: heap where
  "heap0 = \<lparr>nxt = (\<lambda>a. a), prev = (\<lambda>a. a), data = (\<lambda>a. nullptr), deleted = []\<rparr>"




text \<open>
  An example conversion: the pointer to a base class that lies one address after the
  start of the object; null stays null.  \<open>derived_and_base\<close> is the memory after
  \<^verbatim>\<open>linked_ptr<D> h1(p); linked_ptr<B> h2(h1);\<close> with \<^verbatim>\<open>p\<close> at address 5, and
  \<open>three_ring\<close> the memory after a further \<^verbatim>\<open>linked_ptr<D> h3(h1);\<close>
\<close>

definition base2_cast :: "ptr \<Rightarrow> ptr" where
  "base2_cast p = (if p = nullptr then nullptr else p + 1)"

definition derived_and_base :: heap where
  "derived_and_base = conv_copy_ctor base2_cast (ctor heap0 1 5) 2 1"



section \<open>The ownership invariant\<close>

text \<open>
  \<open>L\<close> is the set of handles that are alive (constructed and not yet destroyed) and
  \<open>A\<close> the set of objects that were handed to a constructor or to \<^verbatim>\<open>reset\<close>.
  \<open>ring_ok s L a\<close>: the handle \<open>a\<close> is a member of a ring of live handles that all hold
  the data of \<open>a\<close>, and when that data is not null every live handle holding it is a
  member.  \<open>accounts s L A\<close>: no object was deleted twice, null was never deleted, no
  live handle holds a deleted object, and every object of \<open>A\<close> is either held by a
  live handle or deleted.
\<close>

definition ring_ok :: "heap \<Rightarrow> addr set \<Rightarrow> addr \<Rightarrow> bool" where
  "ring_ok s L a =
     (\<exists>r. a \<in> set r \<and> owns s r (data s a) \<and> set r \<subseteq> L \<and>
          (data s a \<noteq> nullptr \<longrightarrow> {b \<in> L. data s b = data s a} \<subseteq> set r))"

definition rings_ok :: "heap \<Rightarrow> addr set \<Rightarrow> bool" where
  "rings_ok s L = (\<forall>a\<in>L. ring_ok s L a)"

definition accounts :: "heap \<Rightarrow> addr set \<Rightarrow> ptr set \<Rightarrow> bool" where
  "accounts s L A =
     (distinct (deleted s) \<and> nullptr \<notin> set (deleted s) \<and>
      data s ` L \<inter> set (deleted s) = {} \<and>
      A = (data s ` L - {nullptr}) \<union> set (deleted s))"

definition ring_inv :: "heap \<Rightarrow> addr set \<Rightarrow> ptr set \<Rightarrow> bool" where
  "ring_inv s L A = (rings_ok s L \<and> accounts s L A)"

section \<open>Reachable memories\<close>

text \<open>
  What a program knows beside the memory: \<open>live\<close>, the handles that are constructed
  and not yet destroyed; \<open>own\<close>, the object each handle owns (null for none), an
  object being named by the address of the complete object; \<open>ty\<close>, the type \<^verbatim>\<open>T\<close> of
  each handle \<^verbatim>\<open>linked_ptr<T>\<close>; \<open>handed\<close>, the objects that were handed to a
  constructor or to \<^verbatim>\<open>reset\<close>; \<open>freed\<close>, the objects that were deleted, most recent
  first.  \<open>view T ob\<close> is the address that a \<^verbatim>\<open>T*\<close> pointing to the object \<open>ob\<close> holds;
  it is null exactly for the null object.
\<close>

record ghost =
  live :: "addr set"
  handed :: "ptr set"
  own :: "addr \<Rightarrow> ptr"
  ty :: "addr \<Rightarrow> nat"
  freed :: "ptr list"


text \<open>
  The effect of the operations on this knowledge: a new handle of type \<open>T\<close> adopts
  the object \<open>ob\<close>; a new handle of type \<open>T\<close> shares the object of \<open>other\<close>; a handle
  ends, and its object is freed when the destructor found the handle unique; a handle
  is emptied; two handles exchange their objects.
\<close>

definition adopt :: "ghost \<Rightarrow> addr \<Rightarrow> nat \<Rightarrow> ptr \<Rightarrow> ghost" where
  "adopt g this T ob =
     g\<lparr>live := insert this (live g),
       handed := (if ob = nullptr then handed g else insert ob (handed g)),
       own := (own g)(this := ob),
       ty := (ty g)(this := T)\<rparr>"

definition share :: "ghost \<Rightarrow> addr \<Rightarrow> nat \<Rightarrow> addr \<Rightarrow> ghost" where
  "share g this T other =
     g\<lparr>live := insert this (live g),
       own := (own g)(this := own g other),
       ty := (ty g)(this := T)\<rparr>"

definition give_up :: "heap \<Rightarrow> ghost \<Rightarrow> addr \<Rightarrow> ghost" where
  "give_up s g this =
     g\<lparr>live := live g - {this},
       freed := (if unique s this then own g this # freed g else freed g)\<rparr>"

definition emptied :: "ghost \<Rightarrow> addr \<Rightarrow> ghost" where
  "emptied g other = g\<lparr>own := (own g)(other := nullptr)\<rparr>"

definition exchanged :: "ghost \<Rightarrow> addr \<Rightarrow> addr \<Rightarrow> ghost" where
  "exchanged g this other = g\<lparr>own := (own g)(this := own g other, other := own g this)\<rparr>"











section \<open>Basic facts\<close>

lemmas lp_defs = super_linked_ptr_def insert_ring_def remove_ring_def unique_def is_unique_def
  delete_if_unique_def dtor_def ctor_def copy_ctor_def conv_copy_ctor_def move_ctor_def
  copy_assign_def move_assign_def conv_assign_def reset_def

lemma links_append:
  "links s a (xs @ ys) = (links s a xs \<and> links s (last (a # xs)) ys)"
  by (induction xs arbitrary: a) auto

lemma links_frame:
  assumes "\<forall>x\<in>set (butlast (a # xs)). nxt s' x = nxt s x"
    and "\<forall>x\<in>set xs. prev s' x = prev s x"
  shows "links s' a xs = links s a xs"
  using assms by (induction xs arbitrary: a) auto

lemma last_notin_butlast: "distinct xs \<Longrightarrow> xs \<noteq> [] \<Longrightarrow> last xs \<notin> set (butlast xs)"
  by (metis append_butlast_last_id distinct_append disjoint_iff list.set_intros(1))

lemma is_ring_frame:
  assumes "\<forall>x\<in>set r. nxt s' x = nxt s x" and "\<forall>x\<in>set r. prev s' x = prev s x"
  shows "is_ring s' r = is_ring s r"
proof (cases "r = []")
  case True
  then show ?thesis by (simp add: is_ring_def)
next
  case False
  have "links s' (last r) r = links s (last r) r"
    using assms False by (intro links_frame) (auto dest: in_set_butlastD)
  then show ?thesis by (simp add: is_ring_def)
qed

lemma is_ring_single: "is_ring s [a] = (nxt s a = a \<and> prev s a = a)"
  by (simp add: is_ring_def)

lemma is_ring_rotate: "is_ring s (xs @ ys) = is_ring s (ys @ xs)"
proof (cases "xs = [] \<or> ys = []")
  case True
  then show ?thesis by auto
next
  case False
  then show ?thesis by (auto simp: is_ring_def links_append)
qed

lemma is_ring_rotate1: "is_ring s (x # xs) = is_ring s (xs @ [x])"
  using is_ring_rotate [of s "[x]" xs] by simp

lemma ring_member_front:
  assumes "is_ring s r" and "a \<in> set r"
  shows "\<exists>rest. is_ring s (a # rest) \<and> set (a # rest) = set r \<and> length (a # rest) = length r"
proof -
  from assms(2) obtain xs ys where r: "r = xs @ a # ys" by (auto dest: split_list)
  have "is_ring s ((a # ys) @ xs)" using assms(1) unfolding r by (subst is_ring_rotate) simp
  then show ?thesis unfolding r by (intro exI [of _ "ys @ xs"]) auto
qed

lemma ring_front_links:
  assumes "is_ring s (a # rest)"
  shows "prev s (nxt s a) = a" and "nxt s (prev s a) = a"
    and "nxt s a \<in> set (a # rest)" and "prev s a \<in> set (a # rest)"
    and "prev s a = last (a # rest)" and "nxt s a = hd (rest @ [a])"
proof -
  have l: "links s (last (a # rest)) (a # rest)" using assms by (simp add: is_ring_def)
  then show p: "prev s a = last (a # rest)" by simp
  from l show "nxt s (prev s a) = a" by simp
  show "prev s a \<in> set (a # rest)" unfolding p by (rule last_in_set) simp
  have "is_ring s (rest @ [a])" using assms is_ring_rotate1 [of s a rest] by simp
  then have l': "links s a (rest @ [a])" by (simp add: is_ring_def)
  then show n: "nxt s a = hd (rest @ [a])" by (cases rest) auto
  from l' show "prev s (nxt s a) = a" by (cases rest) auto
  show "nxt s a \<in> set (a # rest)" unfolding n by (cases rest) auto
qed

lemma ring_links:
  assumes "is_ring s r" and "a \<in> set r"
  shows "prev s (nxt s a) = a" and "nxt s (prev s a) = a"
    and "nxt s a \<in> set r" and "prev s a \<in> set r"
proof -
  from ring_member_front [OF assms] obtain rest
    where r: "is_ring s (a # rest)" "set (a # rest) = set r" by blast
  show "prev s (nxt s a) = a" "nxt s (prev s a) = a" using ring_front_links [OF r(1)] by auto
  show "nxt s a \<in> set r" "prev s a \<in> set r" using ring_front_links(3,4) [OF r(1)] r(2) by auto
qed

lemma links_prefix:
  "links s a xs \<Longrightarrow> links s a ys \<Longrightarrow> length xs \<le> length ys \<Longrightarrow> take (length xs) ys = xs"
proof (induction xs arbitrary: a ys)
  case Nil
  then show ?case by simp
next
  case (Cons x xs)
  then show ?case by (cases ys) auto
qed

lemma ring_unique_le:
  assumes "is_ring s (a # xs)" and "is_ring s (a # ys)" and "length xs \<le> length ys"
  shows "xs = ys"
proof (rule ccontr)
  assume ne: "xs \<noteq> ys"
  have "is_ring s (xs @ [a])" using assms(1) is_ring_rotate1 [of s a xs] by simp
  then have lx: "links s a (xs @ [a])" by (simp add: is_ring_def)
  have "is_ring s (ys @ [a])" using assms(2) is_ring_rotate1 [of s a ys] by simp
  then have ly: "links s a (ys @ [a])" by (simp add: is_ring_def)
  from lx have "links s a xs" by (simp add: links_append)
  moreover from ly have "links s a ys" by (simp add: links_append)
  ultimately have t: "take (length xs) ys = xs" using assms(3) by (rule links_prefix)
  with ne have lt: "length xs < length ys" using assms(3)
    by (metis le_neq_implies_less take_all_iff order_refl)
  have "take (length (xs @ [a])) (ys @ [a]) = xs @ [a]"
    using lx ly by (rule links_prefix) (use lt in simp)
  then have "take (Suc (length xs)) ys = xs @ [a]" using lt by simp
  then have "a \<in> set (take (Suc (length xs)) ys)" by simp
  then have "a \<in> set ys" by (rule in_set_takeD)
  then show False using assms(2) by (simp add: is_ring_def)
qed

lemma ring_unique:
  assumes "is_ring s (a # xs)" and "is_ring s (a # ys)"
  shows "xs = ys"
  using ring_unique_le [OF assms] ring_unique_le [OF assms(2,1)] by (cases "length xs \<le> length ys") auto

lemma ring_same_set:
  assumes "is_ring s r1" and "is_ring s r2" and "a \<in> set r1" and "a \<in> set r2"
  shows "set r1 = set r2 \<and> length r1 = length r2"
proof -
  from ring_member_front [OF assms(1,3)] obtain xs
    where x: "is_ring s (a # xs)" "set (a # xs) = set r1" "length (a # xs) = length r1" by blast
  from ring_member_front [OF assms(2,4)] obtain ys
    where y: "is_ring s (a # ys)" "set (a # ys) = set r2" "length (a # ys) = length r2" by blast
  have "xs = ys" using x(1) y(1) by (rule ring_unique)
  then show ?thesis using x y by auto
qed


section \<open>\<^verbatim>\<open>unique()\<close>\<close>

text \<open>
  Claim C7.  \<^verbatim>\<open>unique()\<close> is true exactly when the handle is a singleton ring and its data
  is not null.  A handle constructed from a non-null raw pointer is unique; once a copy
  (plain or converting) has been made of it, neither the handle nor its copy is unique.
\<close>

theorem unique_iff_singleton_nonnull:
  "(unique s a \<longleftrightarrow> is_ring s [a] \<and> data s a \<noteq> nullptr) \<and>
   (p \<noteq> nullptr \<longrightarrow> unique (ctor s h p) h) \<and>
   (p \<noteq> nullptr \<and> c \<noteq> h \<longrightarrow>
      \<not> unique (copy_ctor (ctor s h p) c h) h \<and> \<not> unique (copy_ctor (ctor s h p) c h) c \<and>
      \<not> unique (conv_copy_ctor cv (ctor s h p) c h) h \<and>
      \<not> unique (conv_copy_ctor cv (ctor s h p) c h) c)"
  by (auto simp: lp_defs is_ring_def Let_def)

theorem unique_iff_singleton_nonnull_witness:
  "(5::nat) \<noteq> nullptr \<and> (2::nat) \<noteq> 1 \<and> unique (ctor heap0 1 5) 1 \<and>
   \<not> unique (copy_ctor (ctor heap0 1 5) 2 1) 1 \<and> \<not> unique (copy_ctor (ctor heap0 1 5) 2 1) 2 \<and>
   \<not> unique (conv_copy_ctor base2_cast (ctor heap0 1 5) 2 1) 1 \<and>
   \<not> unique (conv_copy_ctor base2_cast (ctor heap0 1 5) 2 1) 2"
  using unique_iff_singleton_nonnull [of heap0 1 5 1 2 base2_cast] by (simp add: nullptr_def)

section \<open>Self-assignment and self-swap\<close>

text \<open>
  Claim C8.  Copy-assigning a handle to itself and swapping a handle with itself return
  the memory as it was: data, links and the log of deletions are unchanged.
\<close>

theorem self_copy_assign_self_swap_noop:
  "copy_assign s a a = s \<and> swap s a a = s"
  by (simp add: copy_assign_def)

section \<open>Comparisons\<close>

text \<open>
  Claim C9, amended.  The three comparison operators compare the two data addresses
  after the conversion to their common pointer type, whatever the links of the memory
  are.  Between handles of one type, where nothing is converted, they are the
  comparisons of the two data addresses.  A handle and the converting copy made of it
  compare equal in both directions.
\<close>

theorem comparisons_on_converted_data:
  "operator_eq cl cr s a b = (cl (data s a) = cr (data s b)) \<and>
   operator_ne cl cr s a b = (cl (data s a) \<noteq> cr (data s b)) \<and>
   operator_lt cl cr s a b = (cl (data s a) < cr (data s b)) \<and>
   operator_eq cl cr (s\<lparr>nxt := n, prev := p\<rparr>) a b = operator_eq cl cr s a b \<and>
   operator_ne cl cr (s\<lparr>nxt := n, prev := p\<rparr>) a b = operator_ne cl cr s a b \<and>
   operator_lt cl cr (s\<lparr>nxt := n, prev := p\<rparr>) a b = operator_lt cl cr s a b \<and>
   operator_eq id id s a b = (data s a = data s b) \<and>
   operator_ne id id s a b = (data s a \<noteq> data s b) \<and>
   operator_lt id id s a b = (data s a < data s b) \<and>
   (this \<noteq> other \<longrightarrow>
      operator_eq id cv (conv_copy_ctor cv s this other) this other \<and>
      operator_eq cv id (conv_copy_ctor cv s this other) other this \<and>
      \<not> operator_ne id cv (conv_copy_ctor cv s this other) this other \<and>
      \<not> operator_lt id cv (conv_copy_ctor cv s this other) this other \<and>
      \<not> operator_lt cv id (conv_copy_ctor cv s this other) other this)"
  by (simp add: operator_eq_def operator_ne_def operator_lt_def conv_copy_ctor_def
      super_linked_ptr_def insert_ring_def Let_def)

theorem comparisons_on_converted_data_witness:
  "(2::nat) \<noteq> 1 \<and>
   operator_eq id base2_cast derived_and_base 2 1 \<and>
   operator_eq base2_cast id derived_and_base 1 2 \<and>
   \<not> operator_lt id base2_cast derived_and_base 2 1"
  using comparisons_on_converted_data
    [where this = 2 and other = 1 and cv = base2_cast and s = "ctor heap0 1 5"]
  by (simp add: derived_and_base_def)

text \<open>
  Claim C9 as stated fails between handles of two types: in \<open>derived_and_base\<close> the
  two handles hold the addresses 6 and 5, yet they compare equal and neither is less
  than the other, because the address 5 is converted to 6 before it is compared.
\<close>

theorem comparisons_raw_address_counterexample:
  "data derived_and_base 2 = 6 \<and> data derived_and_base 1 = 5 \<and>
   operator_eq id base2_cast derived_and_base 2 1 \<and>
   \<not> operator_ne id base2_cast derived_and_base 2 1 \<and>
   \<not> operator_lt base2_cast id derived_and_base 1 2"
  by (simp add: operator_eq_def operator_ne_def operator_lt_def derived_and_base_def
      conv_copy_ctor_def ctor_def super_linked_ptr_def insert_ring_def heap0_def Let_def
      base2_cast_def nullptr_def)

section \<open>Self-move-assignment\<close>

text \<open>
  Claim C10.  Move-assignment has no guard: when a handle that is the only owner of a
  non-null object is move-assigned to itself, the object is deleted and the handle is
  left a singleton holding null, whereas copy-assignment to itself changes nothing.
\<close>

theorem self_move_assign_frees:
  assumes "unique s a"
  shows "deleted (move_assign s a a) = data s a # deleted s \<and>
         data (move_assign s a a) a = nullptr \<and>
         \<not> operator_bool (move_assign s a a) a \<and>
         is_ring (move_assign s a a) [a] \<and>
         move_assign s a a \<noteq> s \<and> copy_assign s a a = s"
proof -
  have d: "deleted (move_assign s a a) = data s a # deleted s"
    using assms by (simp add: lp_defs Let_def)
  then have "deleted (move_assign s a a) \<noteq> deleted s" by simp
  then have "move_assign s a a \<noteq> s" by auto
  moreover have "data (move_assign s a a) a = nullptr"
    by (simp add: lp_defs Let_def)
  moreover have "is_ring (move_assign s a a) [a]"
    by (simp add: lp_defs is_ring_def Let_def)
  ultimately show ?thesis using d by (simp add: operator_bool_def copy_assign_def)
qed

theorem self_move_assign_frees_witness:
  "unique (ctor heap0 1 5) 1 \<and>
   deleted (move_assign (ctor heap0 1 5) 1 1) = [5] \<and>
   data (move_assign (ctor heap0 1 5) 1 1) 1 = nullptr \<and>
   is_ring (move_assign (ctor heap0 1 5) 1 1) [1]"
  using self_move_assign_frees [of "ctor heap0 1 5" 1]
  by (simp add: unique_def ctor_def super_linked_ptr_def heap0_def nullptr_def)


section \<open>The effect of the operations on the fields and on rings\<close>


lemma nxt_super [simp]: "nxt (super_linked_ptr s a) = (nxt s)(a := a)"
  and prev_super [simp]: "prev (super_linked_ptr s a) = (prev s)(a := a)"
  and data_super [simp]: "data (super_linked_ptr s a) = data s"
  and deleted_super [simp]: "deleted (super_linked_ptr s a) = deleted s"
  by (simp_all add: super_linked_ptr_def)

lemma nxt_insert: "nxt (insert_ring s a b) = (nxt s)(a := nxt s b, b := a)"
  and prev_insert: "prev (insert_ring s a b) = (prev s)(nxt s b := a, a := b)"
  and data_insert [simp]: "data (insert_ring s a b) = data s"
  and deleted_insert [simp]: "deleted (insert_ring s a b) = deleted s"
  by (simp_all add: insert_ring_def Let_def)

lemma nxt_remove: "nxt (remove_ring s a) = (nxt s)(prev s a := nxt s a, a := a)"
  and prev_remove: "prev (remove_ring s a) = (prev s)(nxt s a := prev s a, a := a)"
  and data_remove [simp]: "data (remove_ring s a) = data s"
  and deleted_remove [simp]: "deleted (remove_ring s a) = deleted s"
  by (auto simp: remove_ring_def Let_def)

lemma nxt_delete_if_unique [simp]: "nxt (delete_if_unique s a) = nxt s"
  and prev_delete_if_unique [simp]: "prev (delete_if_unique s a) = prev s"
  by (simp_all add: delete_if_unique_def Let_def)

lemma is_ring_super:
  "this \<notin> set r \<Longrightarrow> is_ring (super_linked_ptr s this) r = is_ring s r"
  by (rule is_ring_frame) auto

lemma is_ring_data_upd [simp]: "is_ring (s\<lparr>data := d\<rparr>) r = is_ring s r"
  by (rule is_ring_frame) auto

lemma is_ring_deleted_upd [simp]: "is_ring (s\<lparr>deleted := d\<rparr>) r = is_ring s r"
  by (rule is_ring_frame) auto

lemma is_ring_delete_if_unique [simp]: "is_ring (delete_if_unique s a) r = is_ring s r"
  by (rule is_ring_frame) auto

lemma insert_ring_ring:
  assumes "is_ring s (other # rest)" and "this \<notin> set (other # rest)"
  shows "is_ring (insert_ring s this other) (other # this # rest)"
proof (cases rest)
  case Nil
  with assms show ?thesis by (auto simp: is_ring_def nxt_insert prev_insert)
next
  case (Cons y ys)
  let ?s = "insert_ring s this other"
  let ?l = "last (y # ys)"
  from assms(1) Cons have d: "distinct (other # y # ys)"
    and h: "nxt s ?l = other" "prev s other = ?l" "nxt s other = y" "prev s y = other"
           "links s y ys"
    by (simp_all add: is_ring_def)
  have lin: "?l \<in> set (y # ys)" by (rule last_in_set) simp
  have lne: "?l \<noteq> other" "?l \<noteq> this" using lin d assms(2) Cons by auto
  have "links ?s y ys = links s y ys"
    using d assms(2) Cons h(3)
    by (intro links_frame) (auto simp: nxt_insert prev_insert dest: in_set_butlastD)
  with h(5) have fr: "links ?s y ys" by simp
  have "nxt ?s ?l = other" using lne h(1) by (simp add: nxt_insert)
  moreover have "prev ?s other = ?l" using d assms(2) h(2,3) Cons by (auto simp: prev_insert)
  moreover have "nxt ?s other = this" by (simp add: nxt_insert)
  moreover have "prev ?s this = other" by (simp add: prev_insert)
  moreover have "nxt ?s this = y" using assms(2) h(3) by (auto simp: nxt_insert)
  moreover have "prev ?s y = this" using assms(2) h(3) Cons by (auto simp: prev_insert)
  ultimately have "links ?s ?l (other # this # y # ys)" using fr by simp
  then show ?thesis using d assms(2) Cons by (simp add: is_ring_def)
qed

lemma insert_ring_frame:
  assumes "is_ring s (other # rest)" and "this \<notin> set r" and "set r \<inter> set (other # rest) = {}"
  shows "is_ring (insert_ring s this other) r = is_ring s r"
proof -
  have "nxt s other \<in> set (other # rest)" using assms(1) by (rule ring_front_links)
  then show ?thesis using assms(2,3)
    by (intro is_ring_frame) (auto simp: nxt_insert prev_insert)
qed

lemma remove_ring_single:
  "is_ring (remove_ring s a) [a]"
  by (simp add: is_ring_def nxt_remove prev_remove)

lemma remove_ring_rest:
  assumes "is_ring s (a # rest)" and "rest \<noteq> []"
  shows "is_ring (remove_ring s a) rest"
proof -
  from assms(2) obtain y ys where r: "rest = y # ys" by (cases rest) auto
  let ?s = "remove_ring s a"
  let ?l = "last (y # ys)"
  from assms(1) r have d: "distinct (a # y # ys)"
    and h: "nxt s ?l = a" "prev s a = ?l" "nxt s a = y" "prev s y = a" "links s y ys"
    by (simp_all add: is_ring_def)
  have lin: "?l \<in> set (y # ys)" by (rule last_in_set) simp
  have lne: "?l \<noteq> a" using lin d by auto
  have lb: "?l \<notin> set (butlast (y # ys))" using d by (intro last_notin_butlast) auto
  have "links ?s y ys = links s y ys"
  proof (rule links_frame)
    show "\<forall>x\<in>set (butlast (y # ys)). nxt ?s x = nxt s x"
      using lb d h(2) by (auto simp: nxt_remove dest: in_set_butlastD)
    show "\<forall>x\<in>set ys. prev ?s x = prev s x"
      using d h(3) by (auto simp: prev_remove)
  qed
  with h(5) have "links ?s y ys" by simp
  moreover have "nxt ?s ?l = y" using lne h(2,3) by (simp add: nxt_remove)
  moreover have "prev ?s y = ?l" using d h(2,3) by (auto simp: prev_remove)
  ultimately show ?thesis using d r by (simp add: is_ring_def)
qed

lemma remove_ring_frame:
  assumes "is_ring s (a # rest)" and "set r \<inter> set (a # rest) = {}"
  shows "is_ring (remove_ring s a) r = is_ring s r"
proof -
  have "nxt s a \<in> set (a # rest)" "prev s a \<in> set (a # rest)"
    using assms(1) by (rule ring_front_links)+
  then show ?thesis using assms(2)
    by (intro is_ring_frame) (auto simp: nxt_remove prev_remove)
qed



lemma conv_copy_ctor_eq: "conv_copy_ctor id s this other = copy_ctor s this other"
  by (simp add: conv_copy_ctor_def copy_ctor_def)

lemma conv_copy_ctor_fields:
  "nxt (conv_copy_ctor cv s this other) = nxt (copy_ctor s this other)"
  "prev (conv_copy_ctor cv s this other) = prev (copy_ctor s this other)"
  "data (conv_copy_ctor cv s this other) = (data s)(this := cv (data s other))"
  "deleted (conv_copy_ctor cv s this other) = deleted s"
  by (simp_all add: conv_copy_ctor_def copy_ctor_def Let_def nxt_insert prev_insert)

lemma is_ring_conv_copy_ctor:
  "is_ring (conv_copy_ctor cv s this other) r = is_ring (copy_ctor s this other) r"
  by (rule is_ring_frame) (simp_all add: conv_copy_ctor_fields)

lemma data_copy_ctor: "data (copy_ctor s this other) = (data s)(this := data s other)"
  and deleted_copy_ctor [simp]: "deleted (copy_ctor s this other) = deleted s"
  by (simp_all add: copy_ctor_def Let_def)

lemma copy_ctor_ring:
  assumes "is_ring s (other # rest)" and "this \<notin> set (other # rest)"
  shows "is_ring (copy_ctor s this other) (other # this # rest)"
proof -
  have "is_ring (super_linked_ptr s this) (other # rest)"
    using assms by (simp add: is_ring_super)
  then have "is_ring ((super_linked_ptr s this)\<lparr>data := (data s)(this := data s other)\<rparr>)
               (other # rest)" by simp
  then show ?thesis using assms(2) unfolding copy_ctor_def Let_def
    by (simp add: insert_ring_ring)
qed

lemma copy_ctor_frame:
  assumes "is_ring s (other # rest)" and "this \<notin> set (other # rest)"
    and "this \<notin> set r" and "set r \<inter> set (other # rest) = {}"
  shows "is_ring (copy_ctor s this other) r = is_ring s r"
proof -
  let ?s = "(super_linked_ptr s this)\<lparr>data := (data s)(this := data s other)\<rparr>"
  have "is_ring ?s (other # rest)" using assms(1,2) by (simp add: is_ring_super)
  then have "is_ring (insert_ring ?s this other) r = is_ring ?s r"
    using assms(3,4) by (rule insert_ring_frame)
  then show ?thesis using assms(3) by (simp add: copy_ctor_def Let_def is_ring_super)
qed

lemma data_dtor: "data (dtor s a) = (if unique s a then (data s)(a := nullptr) else data s)"
  and deleted_dtor: "deleted (dtor s a) = (if unique s a then data s a # deleted s else deleted s)"
  by (simp_all add: dtor_def delete_if_unique_def Let_def)

lemma dtor_single: "is_ring (dtor s a) [a]"
  by (simp add: dtor_def remove_ring_single)

lemma dtor_rest: "is_ring s (a # rest) \<Longrightarrow> rest \<noteq> [] \<Longrightarrow> is_ring (dtor s a) rest"
  by (simp add: dtor_def remove_ring_rest)

lemma dtor_frame:
  "is_ring s (a # rest) \<Longrightarrow> set r \<inter> set (a # rest) = {} \<Longrightarrow> is_ring (dtor s a) r = is_ring s r"
  unfolding dtor_def by (subst remove_ring_frame [where rest = rest]) simp_all

lemma unique_ring: "is_ring s (a # rest) \<Longrightarrow> unique s a = (rest = [] \<and> data s a \<noteq> nullptr)"
proof (cases rest)
  case Nil
  then show "is_ring s (a # rest) \<Longrightarrow> ?thesis" by (simp add: is_ring_def unique_def)
next
  case (Cons y ys)
  then show "is_ring s (a # rest) \<Longrightarrow> ?thesis" by (auto simp: is_ring_def unique_def)
qed

section \<open>Copy construction\<close>

text \<open>
  Claim C6, amended.  When \<open>other\<close> is on a ring and \<open>this\<close> is a new handle, the copy
  constructor and the converting copy constructor leave a ring in which \<open>this\<close>
  directly follows \<open>other\<close> and the other members keep their order; the ring has one
  member more, every other handle keeps its data, and nothing is deleted.  After the
  copy constructor \<open>this\<close> holds the data of \<open>other\<close>; after the converting one it
  holds the data of \<open>other\<close> converted to \<^verbatim>\<open>T*\<close>, and when the conversion keeps every
  address the two constructors do the same.
\<close>

theorem copy_ctor_inserts_after_other:
  assumes "is_ring s (other # rest)" and "this \<notin> set (other # rest)"
  shows "is_ring (copy_ctor s this other) (other # this # rest) \<and>
         nxt (copy_ctor s this other) other = this \<and>
         prev (copy_ctor s this other) this = other \<and>
         length (other # this # rest) = length (other # rest) + 1 \<and>
         data (copy_ctor s this other) this = data s other \<and>
         (\<forall>a. a \<noteq> this \<longrightarrow> data (copy_ctor s this other) a = data s a) \<and>
         deleted (copy_ctor s this other) = deleted s \<and>
         is_ring (conv_copy_ctor cv s this other) (other # this # rest) \<and>
         nxt (conv_copy_ctor cv s this other) other = this \<and>
         prev (conv_copy_ctor cv s this other) this = other \<and>
         data (conv_copy_ctor cv s this other) this = cv (data s other) \<and>
         (\<forall>a. a \<noteq> this \<longrightarrow> data (conv_copy_ctor cv s this other) a = data s a) \<and>
         deleted (conv_copy_ctor cv s this other) = deleted s \<and>
         conv_copy_ctor id s this other = copy_ctor s this other"
proof -
  have n: "nxt (copy_ctor s this other) other = this"
    by (simp add: copy_ctor_def Let_def nxt_insert)
  have p: "prev (copy_ctor s this other) this = other"
    by (simp add: copy_ctor_def Let_def prev_insert)
  have r: "is_ring (copy_ctor s this other) (other # this # rest)"
    using assms by (rule copy_ctor_ring)
  then have "is_ring (conv_copy_ctor cv s this other) (other # this # rest)"
    by (simp only: is_ring_conv_copy_ctor)
  with n p r show ?thesis
    by (simp add: data_copy_ctor conv_copy_ctor_eq conv_copy_ctor_fields)
qed

theorem copy_ctor_inserts_after_other_witness:
  "is_ring (ctor heap0 1 5) [1] \<and> 2 \<notin> set [1::nat] \<and>
   is_ring (copy_ctor (ctor heap0 1 5) 2 1) [1, 2] \<and>
   data (copy_ctor (ctor heap0 1 5) 2 1) 2 = 5 \<and>
   data (copy_ctor (ctor heap0 1 5) 2 1) 1 = 5 \<and>
   is_ring (conv_copy_ctor base2_cast (ctor heap0 1 5) 2 1) [1, 2] \<and>
   data (conv_copy_ctor base2_cast (ctor heap0 1 5) 2 1) 2 = 6 \<and>
   data (conv_copy_ctor base2_cast (ctor heap0 1 5) 2 1) 1 = 5"
  using copy_ctor_inserts_after_other
    [where s = "ctor heap0 1 5" and other = 1 and rest = "[]" and this = 2 and cv = base2_cast]
  by (simp add: is_ring_def ctor_def heap0_def super_linked_ptr_def base2_cast_def nullptr_def)

text \<open>
  Claim C6 as stated fails for the converting form: copying the handle 1, which holds
  the address 5, with a conversion that adjusts the address gives a handle holding 6.
\<close>

theorem conv_copy_ctor_data_counterexample:
  "is_ring (ctor heap0 1 5) [1] \<and> 2 \<notin> set [1::nat] \<and>
   data (ctor heap0 1 5) 1 = 5 \<and>
   data (conv_copy_ctor base2_cast (ctor heap0 1 5) 2 1) 2 = 6 \<and>
   data (conv_copy_ctor base2_cast (ctor heap0 1 5) 2 1) 2 \<noteq> data (ctor heap0 1 5) 1"
  by (simp add: is_ring_def conv_copy_ctor_def ctor_def super_linked_ptr_def insert_ring_def
      heap0_def Let_def base2_cast_def nullptr_def)

section \<open>\<^verbatim>\<open>reset\<close>\<close>

text \<open>
  Claim C5.  For a handle on a ring, \<^verbatim>\<open>reset(p)\<close> deletes the held object exactly when
  the handle is the only member of its ring and its data is not null.  The remaining
  members, if any, still form a ring and keep their data; the handle ends as a singleton
  holding \<open>p\<close>.
\<close>

theorem reset_spec:
  assumes "is_ring s (this # rest)"
  shows "deleted (reset s this p) =
           (if rest = [] \<and> data s this \<noteq> nullptr then data s this # deleted s else deleted s) \<and>
         (rest \<noteq> [] \<longrightarrow> is_ring (reset s this p) rest) \<and>
         (\<forall>a. a \<noteq> this \<longrightarrow> data (reset s this p) a = data s a) \<and>
         is_ring (reset s this p) [this] \<and>
         data (reset s this p) this = p"
proof -
  have r: "reset s this p = (dtor s this)\<lparr>data := (data (dtor s this))(this := p)\<rparr>"
    by (simp add: reset_def dtor_def Let_def)
  show ?thesis unfolding r using assms
    by (simp add: deleted_dtor data_dtor unique_ring dtor_single dtor_rest)
qed

theorem reset_spec_witness:
  "is_ring (copy_ctor (ctor heap0 1 5) 2 1) [1, 2] \<and>
   deleted (reset (copy_ctor (ctor heap0 1 5) 2 1) 1 7) = [] \<and>
   is_ring (reset (copy_ctor (ctor heap0 1 5) 2 1) 1 7) [2] \<and>
   data (reset (copy_ctor (ctor heap0 1 5) 2 1) 1 7) 2 = 5 \<and>
   is_ring (reset (copy_ctor (ctor heap0 1 5) 2 1) 1 7) [1] \<and>
   data (reset (copy_ctor (ctor heap0 1 5) 2 1) 1 7) 1 = 7 \<and>
   deleted (reset (reset (copy_ctor (ctor heap0 1 5) 2 1) 1 7) 2 nullptr) = [5]"
  using reset_spec [of "copy_ctor (ctor heap0 1 5) 2 1" 1 "[2]" 7]
    reset_spec [of "reset (copy_ctor (ctor heap0 1 5) 2 1) 1 7" 2 "[]" nullptr]
  by (simp add: is_ring_def lp_defs heap0_def nullptr_def)



section \<open>Move construction and move assignment\<close>


lemma remove_ring_member:
  assumes "is_ring s (xs @ a # ys)" and "xs @ ys \<noteq> []"
  shows "is_ring (remove_ring s a) (xs @ ys)"
proof -
  have "is_ring s ((a # ys) @ xs)" using assms(1) by (subst is_ring_rotate) simp
  then have "is_ring s (a # ys @ xs)" by simp
  then have "is_ring (remove_ring s a) (ys @ xs)" using assms(2) by (intro remove_ring_rest) auto
  then show ?thesis by (subst is_ring_rotate)
qed

lemma remove_ring_member_frame:
  assumes "is_ring s r" and "a \<in> set r" and "set r' \<inter> set r = {}"
  shows "is_ring (remove_ring s a) r' = is_ring s r'"
proof -
  from ring_member_front [OF assms(1,2)] obtain rest
    where "is_ring s (a # rest)" "set (a # rest) = set r" by blast
  then show ?thesis using assms(3) by (intro remove_ring_frame [where rest = rest]) auto
qed

lemma dtor_member:
  "is_ring s (xs @ a # ys) \<Longrightarrow> xs @ ys \<noteq> [] \<Longrightarrow> is_ring (dtor s a) (xs @ ys)"
  by (simp add: dtor_def remove_ring_member)

lemma move_ctor_eq:
  "move_ctor s this other =
     (remove_ring (copy_ctor s this other) other)
       \<lparr>data := (data (remove_ring (copy_ctor s this other) other))(other := nullptr)\<rparr>"
  by (simp add: move_ctor_def copy_ctor_def Let_def insert_ring_def remove_ring_def
      super_linked_ptr_def)

lemma move_assign_eq:
  "move_assign s this other =
     (remove_ring (copy_ctor (dtor s this) this other) other)
       \<lparr>data := (data (remove_ring (copy_ctor (dtor s this) this other) other))(other := nullptr)\<rparr>"
  by (simp add: move_assign_def Let_def)

lemma move_tail:
  assumes "is_ring s (other # rest)" and "this \<notin> set (other # rest)"
  defines "s' \<equiv> (remove_ring (copy_ctor s this other) other)
       \<lparr>data := (data (remove_ring (copy_ctor s this other) other))(other := nullptr)\<rparr>"
  shows "is_ring s' (this # rest)" and "is_ring s' [other]"
    and "data s' = (data s)(this := data s other, other := nullptr)"
    and "deleted s' = deleted s"
proof -
  have "is_ring (copy_ctor s this other) (other # this # rest)"
    using assms(1,2) by (rule copy_ctor_ring)
  then have "is_ring (remove_ring (copy_ctor s this other) other) (this # rest)"
    by (rule remove_ring_rest) simp
  then show "is_ring s' (this # rest)" by (simp add: s'_def)
  show "is_ring s' [other]" by (simp add: s'_def remove_ring_single)
  show "data s' = (data s)(this := data s other, other := nullptr)"
    by (simp add: s'_def data_copy_ctor)
  show "deleted s' = deleted s" by (simp add: s'_def)
qed

lemma move_ctor_ring:
  assumes "is_ring s (other # rest)" and "this \<notin> set (other # rest)"
  shows "is_ring (move_ctor s this other) (this # rest)"
    and "is_ring (move_ctor s this other) [other]"
    and "data (move_ctor s this other) = (data s)(this := data s other, other := nullptr)"
    and "deleted (move_ctor s this other) = deleted s"
  unfolding move_ctor_eq using move_tail [OF assms] by auto

lemma ring_disjoint:
  assumes "is_ring s r1" and "is_ring s r2" and "a \<in> set r1" and "a \<notin> set r2"
  shows "set r1 \<inter> set r2 = {}"
proof (rule ccontr)
  assume "set r1 \<inter> set r2 \<noteq> {}"
  then obtain b where "b \<in> set r1" "b \<in> set r2" by auto
  with assms(1,2) have "set r1 = set r2" by (auto dest: ring_same_set)
  with assms(3,4) show False by simp
qed

lemma move_assign_other_ring:
  assumes "is_ring s (other # rest)" and "is_ring s (this # trest)" and "this \<notin> set (other # rest)"
  shows "is_ring (move_assign s this other) (this # rest)"
    and "is_ring (move_assign s this other) [other]"
    and "data (move_assign s this other) this = data s other"
    and "data (move_assign s this other) other = nullptr"
    and "deleted (move_assign s this other) =
           (if trest = [] \<and> data s this \<noteq> nullptr then data s this # deleted s else deleted s)"
proof -
  have dj: "set (other # rest) \<inter> set (this # trest) = {}"
    using ring_disjoint [OF assms(2,1) _ assms(3)] by auto
  have o: "is_ring (dtor s this) (other # rest)"
    using assms(1) dtor_frame [OF assms(2) dj] by simp
  note t = move_tail [OF o assms(3)]
  show "is_ring (move_assign s this other) (this # rest)"
    and "is_ring (move_assign s this other) [other]"
    unfolding move_assign_eq using t(1,2) by auto
  have ne: "other \<noteq> this" using assms(3) by auto
  show "data (move_assign s this other) this = data s other"
    unfolding move_assign_eq t(3) using ne by (simp add: data_dtor)
  show "data (move_assign s this other) other = nullptr"
    unfolding move_assign_eq t(3) by simp
  show "deleted (move_assign s this other) =
           (if trest = [] \<and> data s this \<noteq> nullptr then data s this # deleted s else deleted s)"
    unfolding move_assign_eq t(4) by (simp add: deleted_dtor unique_ring [OF assms(2)])
qed

lemma move_assign_same_ring:
  assumes "is_ring s (other # pre @ this # post)"
  shows "is_ring (move_assign s this other) (this # pre @ post)"
    and "is_ring (move_assign s this other) [other]"
    and "data (move_assign s this other) this = data s other"
    and "data (move_assign s this other) other = nullptr"
    and "deleted (move_assign s this other) = deleted s"
proof -
  have d: "distinct (other # pre @ this # post)" using assms by (simp add: is_ring_def)
  have "is_ring s ((other # pre) @ this # post)" using assms by simp
  then have "is_ring (dtor s this) ((other # pre) @ post)" by (rule dtor_member) simp
  then have o: "is_ring (dtor s this) (other # pre @ post)" by simp
  have ni: "this \<notin> set (other # pre @ post)" using d by auto
  note t = move_tail [OF o ni]
  have nu: "\<not> unique s this"
  proof -
    from ring_member_front [OF assms, of this] obtain r
      where r: "is_ring s (this # r)" "length (this # r) = length (other # pre @ this # post)"
      by auto
    then have "r \<noteq> []" by auto
    with unique_ring [OF r(1)] show ?thesis by simp
  qed
  show "is_ring (move_assign s this other) (this # pre @ post)"
    and "is_ring (move_assign s this other) [other]"
    unfolding move_assign_eq using t(1,2) by auto
  have ne: "other \<noteq> this" using d by auto
  show "data (move_assign s this other) this = data s other"
    unfolding move_assign_eq t(3) using ne by (simp add: data_dtor)
  show "data (move_assign s this other) other = nullptr"
    unfolding move_assign_eq t(3) by simp
  show "deleted (move_assign s this other) = deleted s"
    unfolding move_assign_eq t(4) using nu by (simp add: deleted_dtor)
qed

text \<open>
  Claim C4, amended.  Let \<open>other\<close> be on the ring \<open>other # rest\<close>.  After
  move-construction of a new handle \<open>this\<close>, and after move-assignment to a handle
  \<open>this\<close> that is on a ring of its own, \<open>this\<close> stands in the place of \<open>other\<close>
  (the ring is \<open>this # rest\<close>, of the same size), \<open>this\<close> holds what \<open>other\<close> held,
  and \<open>other\<close> is a singleton whose boolean conversion is false.  After move-assignment
  to a handle \<open>this\<close> that was itself a member of the ring of \<open>other\<close>, the same holds
  except that the ring has one member fewer than before.
\<close>

theorem move_keeps_or_shrinks_ring:
  assumes "is_ring s (other # rest)"
  shows "(this \<notin> set (other # rest) \<longrightarrow>
            is_ring (move_ctor s this other) (this # rest) \<and>
            length (this # rest) = length (other # rest) \<and>
            data (move_ctor s this other) this = data s other \<and>
            is_ring (move_ctor s this other) [other] \<and>
            \<not> operator_bool (move_ctor s this other) other) \<and>
         (this \<notin> set (other # rest) \<and> is_ring s (this # trest) \<longrightarrow>
            is_ring (move_assign s this other) (this # rest) \<and>
            length (this # rest) = length (other # rest) \<and>
            data (move_assign s this other) this = data s other \<and>
            is_ring (move_assign s this other) [other] \<and>
            \<not> operator_bool (move_assign s this other) other) \<and>
         (rest = pre @ this # post \<longrightarrow>
            is_ring (move_assign s this other) (this # pre @ post) \<and>
            length (this # pre @ post) + 1 = length (other # rest) \<and>
            data (move_assign s this other) this = data s other \<and>
            is_ring (move_assign s this other) [other] \<and>
            \<not> operator_bool (move_assign s this other) other)"
proof (intro conjI impI)
  assume n: "this \<notin> set (other # rest)"
  note m = move_ctor_ring [OF assms n]
  show "is_ring (move_ctor s this other) (this # rest)" by (rule m(1))
  show "is_ring (move_ctor s this other) [other]" by (rule m(2))
  show "data (move_ctor s this other) this = data s other" using n by (auto simp: m(3))
  show "\<not> operator_bool (move_ctor s this other) other" by (simp add: m(3) operator_bool_def)
next
  assume a: "this \<notin> set (other # rest) \<and> is_ring s (this # trest)"
  then have n: "this \<notin> set (other # rest)" and t: "is_ring s (this # trest)" by auto
  note m = move_assign_other_ring [OF assms t n]
  show "is_ring (move_assign s this other) (this # rest)" by (rule m(1))
  show "is_ring (move_assign s this other) [other]" by (rule m(2))
  show "data (move_assign s this other) this = data s other" by (rule m(3))
  show "\<not> operator_bool (move_assign s this other) other" by (simp add: m(4) operator_bool_def)
next
  assume r: "rest = pre @ this # post"
  note m = move_assign_same_ring [OF assms [unfolded r]]
  show "is_ring (move_assign s this other) (this # pre @ post)" by (rule m(1))
  show "is_ring (move_assign s this other) [other]" by (rule m(2))
  show "data (move_assign s this other) this = data s other" by (rule m(3))
  show "\<not> operator_bool (move_assign s this other) other" by (simp add: m(4) operator_bool_def)
  show "length (this # pre @ post) + 1 = length (other # rest)" by (simp add: r)
qed simp_all


theorem move_keeps_or_shrinks_ring_witness:
  "is_ring (ctor (ctor heap0 1 5) 3 7) [1] \<and> is_ring (ctor (ctor heap0 1 5) 3 7) [3] \<and>
   2 \<notin> set [1::nat] \<and> 3 \<notin> set [1::nat] \<and>
   is_ring (move_ctor (ctor (ctor heap0 1 5) 3 7) 2 1) [2] \<and>
   data (move_ctor (ctor (ctor heap0 1 5) 3 7) 2 1) 2 = 5 \<and>
   \<not> operator_bool (move_ctor (ctor (ctor heap0 1 5) 3 7) 2 1) 1 \<and>
   is_ring (move_assign (ctor (ctor heap0 1 5) 3 7) 3 1) [3] \<and>
   data (move_assign (ctor (ctor heap0 1 5) 3 7) 3 1) 3 = 5 \<and>
   \<not> operator_bool (move_assign (ctor (ctor heap0 1 5) 3 7) 3 1) 1 \<and>
   is_ring (copy_ctor (ctor heap0 1 5) 2 1) [1, 2] \<and>
   is_ring (move_assign (copy_ctor (ctor heap0 1 5) 2 1) 2 1) [2] \<and>
   data (move_assign (copy_ctor (ctor heap0 1 5) 2 1) 2 1) 2 = 5 \<and>
   \<not> operator_bool (move_assign (copy_ctor (ctor heap0 1 5) 2 1) 2 1) 1"
  using move_keeps_or_shrinks_ring
          [where s = "ctor (ctor heap0 1 5) 3 7" and other = 1 and rest = "[]" and this = 2]
        move_keeps_or_shrinks_ring
          [where s = "ctor (ctor heap0 1 5) 3 7" and other = 1 and rest = "[]" and this = 3
             and trest = "[]"]
        move_keeps_or_shrinks_ring
          [where s = "copy_ctor (ctor heap0 1 5) 2 1" and other = 1 and rest = "[2]" and this = 2
             and pre = "[]" and post = "[]"]
  by (simp add: is_ring_def ctor_def copy_ctor_def super_linked_ptr_def insert_ring_def
      heap0_def Let_def)

text \<open>
  Claim C4 as stated fails for a move-assignment between two members of one ring:
  handles 1 and 2 both own object 5; after \<^verbatim>\<open>h2 = std::move(h1)\<close> handle 2 owns it
  alone, so the number of owners went from two to one.
\<close>

theorem move_assign_within_ring_counterexample:
  "(2::nat) \<noteq> 1 \<and>
   owns (copy_ctor (ctor heap0 1 5) 2 1) [1, 2] 5 \<and>
   owns (move_assign (copy_ctor (ctor heap0 1 5) 2 1) 2 1) [2] 5 \<and>
   data (move_assign (copy_ctor (ctor heap0 1 5) 2 1) 2 1) 1 = nullptr \<and>
   length [2::nat] \<noteq> length [1::nat, 2]"
  by (simp add: owns_def is_ring_def lp_defs heap0_def nullptr_def)



section \<open>\<^verbatim>\<open>swap\<close>\<close>




declare swap.simps [simp del]

lemma is_unique_data_upd [simp]: "is_unique (s\<lparr>data := d\<rparr>) a = is_unique s a"
  by (simp add: is_unique_def)































section \<open>Preservation of the ownership invariant\<close>


lemma ring_okE:
  assumes "ring_ok s L a"
  obtains r where "a \<in> set r" and "is_ring s r" and "\<forall>b\<in>set r. data s b = data s a"
    and "set r \<subseteq> L"
    and "data s a \<noteq> nullptr \<longrightarrow> (\<forall>b\<in>L. data s b = data s a \<longrightarrow> b \<in> set r)"
proof -
  from assms obtain r where r: "a \<in> set r" "owns s r (data s a)" "set r \<subseteq> L"
    "data s a \<noteq> nullptr \<longrightarrow> {b \<in> L. data s b = data s a} \<subseteq> set r"
    unfolding ring_ok_def by blast
  have 1: "is_ring s r" "\<forall>b\<in>set r. data s b = data s a"
    using r(2) by (simp_all add: owns_def list_all_iff)
  have 2: "data s a \<noteq> nullptr \<longrightarrow> (\<forall>b\<in>L. data s b = data s a \<longrightarrow> b \<in> set r)"
    using r(4) by blast
  show thesis using r(1) 1 r(3) 2 by (rule that)
qed

lemma ring_okI:
  assumes "a \<in> set r" and "is_ring s r" and "\<forall>b\<in>set r. data s b = data s a"
    and "set r \<subseteq> L" and "data s a \<noteq> nullptr \<Longrightarrow> \<forall>b\<in>L. data s b = data s a \<longrightarrow> b \<in> set r"
  shows "ring_ok s L a"
  using assms unfolding ring_ok_def owns_def list_all_iff by blast

text \<open>The general step: handles outside the affected set \<open>X\<close> keep their rings.\<close>

lemma rings_step:
  assumes old: "\<forall>a\<in>L. ring_ok s L a"
    and frame: "\<And>r. is_ring s r \<Longrightarrow> set r \<inter> X = {} \<Longrightarrow> is_ring s' r"
    and dframe: "\<And>a. a \<notin> X \<Longrightarrow> data s' a = data s a"
    and closed: "\<And>r a. is_ring s r \<Longrightarrow> a \<in> set r \<Longrightarrow> set r \<subseteq> L \<Longrightarrow> a \<notin> X \<Longrightarrow> set r \<inter> X = {}"
    and live: "L' - X = L - X"
    and new: "\<And>a. a \<in> L' \<Longrightarrow> a \<in> X \<Longrightarrow> ring_ok s' L' a"
    and cross: "\<And>a b. a \<in> L \<Longrightarrow> a \<notin> X \<Longrightarrow> b \<in> L' \<Longrightarrow> b \<in> X \<Longrightarrow> data s' b = data s a
                  \<Longrightarrow> data s a = nullptr"
  shows "\<forall>a\<in>L'. ring_ok s' L' a"
proof
  fix a assume a: "a \<in> L'"
  show "ring_ok s' L' a"
  proof (cases "a \<in> X")
    case True
    with a show ?thesis by (rule new)
  next
    case False
    with a live have aL: "a \<in> L" by auto
    with old have "ring_ok s L a" by simp
    then obtain r where r: "a \<in> set r" "is_ring s r" "\<forall>b\<in>set r. data s b = data s a"
      "set r \<subseteq> L" "data s a \<noteq> nullptr \<longrightarrow> (\<forall>b\<in>L. data s b = data s a \<longrightarrow> b \<in> set r)"
      by (rule ring_okE)
    have dj: "set r \<inter> X = {}" using r(2,1,4) False by (rule closed)
    have da: "data s' a = data s a" using False by (rule dframe)
    show ?thesis
    proof (rule ring_okI)
      show "a \<in> set r" by (rule r(1))
      show "is_ring s' r" using r(2) dj by (rule frame)
      show "\<forall>b\<in>set r. data s' b = data s' a"
      proof
        fix b assume b: "b \<in> set r"
        with dj have "b \<notin> X" by auto
        then have "data s' b = data s b" by (rule dframe)
        with r(3) b da show "data s' b = data s' a" by simp
      qed
      show "set r \<subseteq> L'" using r(4) dj live by auto
      assume nn: "data s' a \<noteq> nullptr"
      show "\<forall>b\<in>L'. data s' b = data s' a \<longrightarrow> b \<in> set r"
      proof (intro ballI impI)
        fix b assume b: "b \<in> L'" "data s' b = data s' a"
        show "b \<in> set r"
        proof (cases "b \<in> X")
          case True
          with cross [OF aL False b(1)] b(2) da nn show ?thesis by auto
        next
          case bX: False
          with b(1) live have "b \<in> L" by auto
          moreover have "data s b = data s a" using b(2) da dframe [OF bX] by simp
          ultimately show ?thesis using r(5) nn da by auto
        qed
      qed
    qed
  qed
qed

lemma ring_closed:
  assumes "is_ring s r1" and "is_ring s r2" and "a \<in> set r2" and "a \<notin> set r1"
  shows "set r2 \<inter> set r1 = {}"
  using ring_disjoint [OF assms(2,1,3,4)] .




lemma rings_okD:
  assumes "rings_ok s L" and "a \<in> L"
  obtains rest where "is_ring s (a # rest)" and "\<forall>b\<in>set rest. data s b = data s a"
    and "set rest \<subseteq> L"
    and "data s a \<noteq> nullptr \<longrightarrow> (\<forall>b\<in>L. data s b = data s a \<longrightarrow> b \<in> set (a # rest))"
proof -
  from assms have "ring_ok s L a" by (simp add: rings_ok_def)
  then obtain r where r: "a \<in> set r" "is_ring s r" "\<forall>b\<in>set r. data s b = data s a"
      "set r \<subseteq> L" "data s a \<noteq> nullptr \<longrightarrow> (\<forall>b\<in>L. data s b = data s a \<longrightarrow> b \<in> set r)"
    by (rule ring_okE)
  from ring_member_front [OF r(2,1)] obtain rest
    where f: "is_ring s (a # rest)" "set (a # rest) = set r" by blast
  have 1: "\<forall>b\<in>set rest. data s b = data s a" using r(3) f(2) by auto
  have 2: "set rest \<subseteq> L" using r(4) f(2) by auto
  have 3: "data s a \<noteq> nullptr \<longrightarrow> (\<forall>b\<in>L. data s b = data s a \<longrightarrow> b \<in> set (a # rest))"
    using r(5) f(2) by simp
  show thesis using f(1) 1 2 3 by (rule that)
qed

lemma ctor_fields:
  "nxt (ctor s this p) = (nxt s)(this := this)"
  "prev (ctor s this p) = (prev s)(this := this)"
  "data (ctor s this p) = (data s)(this := p)"
  "deleted (ctor s this p) = deleted s"
  by (simp_all add: ctor_def Let_def)

lemma ctor_rings:
  assumes "rings_ok s L" and "this \<notin> L" and "p \<noteq> nullptr \<longrightarrow> (\<forall>a\<in>L. data s a \<noteq> p)"
  shows "rings_ok (ctor s this p) (insert this L)"
  unfolding rings_ok_def
proof (rule rings_step [where X = "{this}" and s = s and L = L])
  show "\<forall>a\<in>L. ring_ok s L a" using assms(1) by (simp add: rings_ok_def)
  show "is_ring (ctor s this p) r" if "is_ring s r" "set r \<inter> {this} = {}" for r
  proof -
    have "is_ring (ctor s this p) r = is_ring s r"
      using that(2) by (intro is_ring_frame) (auto simp: ctor_fields)
    with that(1) show ?thesis by simp
  qed
  show "data (ctor s this p) a = data s a" if "a \<notin> {this}" for a
    using that by (simp add: ctor_fields)
  show "set r \<inter> {this} = {}" if "set r \<subseteq> L" for r
    using that assms(2) by auto
  show "insert this L - {this} = L - {this}" by auto
  show "ring_ok (ctor s this p) (insert this L) a" if "a \<in> insert this L" "a \<in> {this}" for a
  proof (rule ring_okI [where r = "[this]"])
    show "a \<in> set [this]" using that(2) by simp
    show "is_ring (ctor s this p) [this]" by (simp add: is_ring_def ctor_fields)
    show "\<forall>b\<in>set [this]. data (ctor s this p) b = data (ctor s this p) a" using that(2) by simp
    show "set [this] \<subseteq> insert this L" by simp
    show "\<forall>b\<in>insert this L. data (ctor s this p) b = data (ctor s this p) a \<longrightarrow> b \<in> set [this]"
      if "data (ctor s this p) a \<noteq> nullptr"
      using that \<open>a \<in> {this}\<close> assms(3) by (auto simp: ctor_fields)
  qed
  show "data s a = nullptr"
    if "a \<in> L" "b \<in> {this}" "data (ctor s this p) b = data s a" for a b
    using that assms(3) by (auto simp: ctor_fields)
qed

lemma copy_ctor_rings:
  assumes "rings_ok s L" and "this \<notin> L" and "other \<in> L"
  shows "rings_ok (copy_ctor s this other) (insert this L)"
proof -
  from assms(1,3) obtain rest where o: "is_ring s (other # rest)"
    "\<forall>b\<in>set rest. data s b = data s other" "set rest \<subseteq> L"
    "data s other \<noteq> nullptr \<longrightarrow> (\<forall>b\<in>L. data s b = data s other \<longrightarrow> b \<in> set (other # rest))"
    by (rule rings_okD)
  have ni: "this \<notin> set (other # rest)" using assms(2,3) o(3) by auto
  let ?s = "copy_ctor s this other"
  let ?X = "insert this (set (other # rest))"
  have new: "is_ring ?s (other # this # rest)" using o(1) ni by (rule copy_ctor_ring)
  show ?thesis unfolding rings_ok_def
  proof (rule rings_step [where X = ?X and s = s and L = L])
    show "\<forall>a\<in>L. ring_ok s L a" using assms(1) by (simp add: rings_ok_def)
    show "is_ring ?s r" if "is_ring s r" "set r \<inter> ?X = {}" for r
    proof -
      have "is_ring ?s r = is_ring s r"
        using o(1) ni by (rule copy_ctor_frame) (use that(2) in auto)
      with that(1) show ?thesis by simp
    qed
    show "data ?s a = data s a" if "a \<notin> ?X" for a
      using that by (simp add: data_copy_ctor)
    show "set r \<inter> ?X = {}" if "is_ring s r" "a \<in> set r" "set r \<subseteq> L" "a \<notin> ?X" for r a
    proof -
      have "set r \<inter> set (other # rest) = {}"
        using o(1) that(1,2) by (rule ring_closed) (use that(4) in auto)
      then show ?thesis using that(3) assms(2) by auto
    qed
    show "insert this L - ?X = L - ?X" by auto
    show "ring_ok ?s (insert this L) a" if "a \<in> insert this L" "a \<in> ?X" for a
    proof (rule ring_okI [where r = "other # this # rest"])
      show "a \<in> set (other # this # rest)" using that(2) by auto
      show "is_ring ?s (other # this # rest)" by (rule new)
      have da: "data ?s a = data s other"
        using that(2) o(2) by (auto simp: data_copy_ctor)
      show "\<forall>b\<in>set (other # this # rest). data ?s b = data ?s a"
        unfolding da using o(2) by (auto simp: data_copy_ctor)
      show "set (other # this # rest) \<subseteq> insert this L" using o(3) assms(3) by auto
      show "\<forall>b\<in>insert this L. data ?s b = data ?s a \<longrightarrow> b \<in> set (other # this # rest)"
        if "data ?s a \<noteq> nullptr"
        using that o(4) unfolding da by (auto simp: data_copy_ctor)
    qed
    show "data s a = nullptr"
      if "a \<in> L" "a \<notin> ?X" "b \<in> ?X" "data ?s b = data s a" for a b
    proof -
      have "data ?s b = data s other" using that(3) o(2) by (auto simp: data_copy_ctor)
      with that(4) have "data s a = data s other" by simp
      with o(4) that(1,2) show ?thesis by auto
    qed
  qed
qed



lemma dtor_data_other: "a \<noteq> this \<Longrightarrow> data (dtor s this) a = data s a"
  by (simp add: data_dtor)

lemma dtor_data_rest:
  assumes "this \<notin> set rest" and "\<forall>b\<in>set rest. data s b = p" and "a \<in> set rest"
  shows "data (dtor s this) a = p"
proof -
  from assms(1,3) have "a \<noteq> this" by auto
  then have "data (dtor s this) a = data s a" by (rule dtor_data_other)
  with assms(2,3) show ?thesis by simp
qed

lemma dtor_rings:
  assumes "rings_ok s L" and "this \<in> L"
  shows "rings_ok (dtor s this) (L - {this})"
proof -
  from assms obtain rest where t: "is_ring s (this # rest)"
    "\<forall>b\<in>set rest. data s b = data s this" "set rest \<subseteq> L"
    "data s this \<noteq> nullptr \<longrightarrow> (\<forall>b\<in>L. data s b = data s this \<longrightarrow> b \<in> set (this # rest))"
    by (rule rings_okD)
  have d: "this \<notin> set rest" using t(1) by (simp add: is_ring_def)
  let ?s = "dtor s this"
  let ?X = "set (this # rest)"
  show ?thesis unfolding rings_ok_def
  proof (rule rings_step [where X = ?X and s = s and L = L])
    show "\<forall>a\<in>L. ring_ok s L a" using assms(1) by (simp add: rings_ok_def)
    show "is_ring ?s r" if "is_ring s r" "set r \<inter> ?X = {}" for r
      using dtor_frame [OF t(1) that(2)] that(1) by simp
    show "data ?s a = data s a" if "a \<notin> ?X" for a
      using that by (simp add: dtor_data_other)
    show "set r \<inter> ?X = {}" if "is_ring s r" "a \<in> set r" "a \<notin> ?X" for r a
      using t(1) that by (rule ring_closed)
    show "L - {this} - ?X = L - ?X" by auto
    show "ring_ok ?s (L - {this}) a" if "a \<in> L - {this}" "a \<in> ?X" for a
    proof (rule ring_okI [where r = rest])
      from that have ar: "a \<in> set rest" by auto
      then have ne: "rest \<noteq> []" by auto
      show "a \<in> set rest" by (rule ar)
      show "is_ring ?s rest" using t(1) ne by (rule dtor_rest)
      have da: "data ?s a = data s this" using d t(2) ar by (rule dtor_data_rest)
      show "\<forall>b\<in>set rest. data ?s b = data ?s a"
        unfolding da using dtor_data_rest [OF d t(2)] by blast
      show "set rest \<subseteq> L - {this}" using t(3) d by auto
      show "\<forall>b\<in>L - {this}. data ?s b = data ?s a \<longrightarrow> b \<in> set rest"
        if nn: "data ?s a \<noteq> nullptr"
      proof (intro ballI impI)
        fix b assume b: "b \<in> L - {this}" "data ?s b = data ?s a"
        then have "data s b = data s this" using da by (simp add: dtor_data_other)
        moreover have "data s this \<noteq> nullptr" using nn da by simp
        ultimately have "b \<in> set (this # rest)" using t(4) b(1) by auto
        with b(1) show "b \<in> set rest" by auto
      qed
    qed
    show "data s a = nullptr"
      if "a \<in> L" "a \<notin> ?X" "b \<in> L - {this}" "b \<in> ?X" "data ?s b = data s a" for a b
    proof -
      from that(3,4) have "b \<in> set rest" by auto
      with d t(2) have "data ?s b = data s this" by (rule dtor_data_rest)
      with that(5) have "data s a = data s this" by simp
      with t(4) that(1,2) show ?thesis by auto
    qed
  qed
qed

lemma upd_data_rest:
  assumes "x \<notin> set rest" and "\<forall>b\<in>set rest. f b = p" and "a \<in> set rest"
  shows "(f(x := q)) a = p"
proof -
  from assms(1,3) have "a \<noteq> x" by auto
  with assms(2,3) show ?thesis by simp
qed

text \<open>The tail of the move operations: \<^verbatim>\<open>other.remove(); other.data = nullptr;\<close>\<close>

lemma release_rings:
  assumes "rings_ok s L" and "other \<in> L"
  shows "rings_ok ((remove_ring s other)\<lparr>data := (data (remove_ring s other))(other := nullptr)\<rparr>) L"
proof -
  from assms obtain rest where o: "is_ring s (other # rest)"
    "\<forall>b\<in>set rest. data s b = data s other" "set rest \<subseteq> L"
    "data s other \<noteq> nullptr \<longrightarrow> (\<forall>b\<in>L. data s b = data s other \<longrightarrow> b \<in> set (other # rest))"
    by (rule rings_okD)
  have d: "other \<notin> set rest" using o(1) by (simp add: is_ring_def)
  let ?s = "(remove_ring s other)\<lparr>data := (data (remove_ring s other))(other := nullptr)\<rparr>"
  let ?X = "set (other # rest)"
  have dat: "data ?s = (data s)(other := nullptr)" by simp
  show ?thesis unfolding rings_ok_def
  proof (rule rings_step [where X = ?X and s = s and L = L])
    show "\<forall>a\<in>L. ring_ok s L a" using assms(1) by (simp add: rings_ok_def)
    show "is_ring ?s r" if "is_ring s r" "set r \<inter> ?X = {}" for r
      using remove_ring_frame [OF o(1) that(2)] that(1) by simp
    show "data ?s a = data s a" if "a \<notin> ?X" for a
      using that by simp
    show "set r \<inter> ?X = {}" if "is_ring s r" "a \<in> set r" "a \<notin> ?X" for r a
      using o(1) that by (rule ring_closed)
    show "L - ?X = L - ?X" ..
    show "ring_ok ?s L a" if "a \<in> L" "a \<in> ?X" for a
    proof (cases "a = other")
      case True
      show ?thesis
      proof (rule ring_okI [where r = "[other]"])
        show "a \<in> set [other]" using True by simp
        show "is_ring ?s [other]" by (simp add: remove_ring_single)
        show "\<forall>b\<in>set [other]. data ?s b = data ?s a" using True by simp
        show "set [other] \<subseteq> L" using assms(2) by simp
        show "\<forall>b\<in>L. data ?s b = data ?s a \<longrightarrow> b \<in> set [other]" if "data ?s a \<noteq> nullptr"
          using that True by simp
      qed
    next
      case False
      with that(2) have ar: "a \<in> set rest" by auto
      then have ne: "rest \<noteq> []" by auto
      have da: "data ?s a = data s other" unfolding dat using d o(2) ar by (rule upd_data_rest)
      show ?thesis
      proof (rule ring_okI [where r = rest])
        show "a \<in> set rest" by (rule ar)
        have "is_ring (remove_ring s other) rest" using o(1) ne by (rule remove_ring_rest)
        then show "is_ring ?s rest" by simp
        show "\<forall>b\<in>set rest. data ?s b = data ?s a"
          unfolding da unfolding dat using upd_data_rest [OF d o(2)] by blast
        show "set rest \<subseteq> L" by (rule o(3))
        show "\<forall>b\<in>L. data ?s b = data ?s a \<longrightarrow> b \<in> set rest" if nn: "data ?s a \<noteq> nullptr"
        proof (intro ballI impI)
          fix b assume b: "b \<in> L" "data ?s b = data ?s a"
          have nn': "data s other \<noteq> nullptr" using nn da by simp
          have bo: "b \<noteq> other"
          proof
            assume "b = other"
            then have "data ?s b = nullptr" by simp
            with b(2) da nn' show False by simp
          qed
          then have "data s b = data s other" using b(2) da by simp
          with o(4) nn' b(1) have "b \<in> set (other # rest)" by auto
          with bo show "b \<in> set rest" by auto
        qed
      qed
    qed
    show "data s a = nullptr"
      if "a \<in> L" "a \<notin> ?X" "b \<in> L" "b \<in> ?X" "data ?s b = data s a" for a b
    proof (cases "b = other")
      case True
      with that(5) show ?thesis by simp
    next
      case False
      with that(4) have "b \<in> set rest" by auto
      with d o(2) have "data ?s b = data s other" unfolding dat by (rule upd_data_rest)
      with that(5) have "data s a = data s other" by simp
      with o(4) that(1,2) show ?thesis by auto
    qed
  qed
qed











lemma sole_owner:
  assumes "rings_ok s L" and "this \<in> L"
  shows "unique s this = (data s this \<noteq> nullptr \<and> (\<forall>b\<in>L. b \<noteq> this \<longrightarrow> data s b \<noteq> data s this))"
proof -
  from assms obtain rest where t: "is_ring s (this # rest)"
    "\<forall>b\<in>set rest. data s b = data s this" "set rest \<subseteq> L"
    "data s this \<noteq> nullptr \<longrightarrow> (\<forall>b\<in>L. data s b = data s this \<longrightarrow> b \<in> set (this # rest))"
    by (rule rings_okD)
  have d: "this \<notin> set rest" using t(1) by (simp add: is_ring_def)
  show ?thesis
  proof (cases "rest = []")
    case True
    then show ?thesis using t(4) unique_ring [OF t(1)] by auto
  next
    case False
    then obtain b where b: "b \<in> set rest" by (cases rest) auto
    with d t(2,3) have "b \<in> L" "b \<noteq> this" "data s b = data s this" by auto
    then show ?thesis using unique_ring [OF t(1)] False by auto
  qed
qed

lemma image_minus_dup:
  assumes "b \<in> L" and "b \<noteq> x" and "f b = f x"
  shows "f ` (L - {x}) = f ` L"
proof
  show "f ` (L - {x}) \<subseteq> f ` L" by auto
  show "f ` L \<subseteq> f ` (L - {x})"
  proof
    fix y assume "y \<in> f ` L"
    then obtain a where a: "a \<in> L" "y = f a" by auto
    show "y \<in> f ` (L - {x})"
    proof (cases "a = x")
      case True
      with a assms have "y = f b" "b \<in> L - {x}" by auto
      then show ?thesis by blast
    next
      case False
      with a show ?thesis by blast
    qed
  qed
qed

lemma accounts_intro:
  assumes "distinct (deleted s)" and "nullptr \<notin> set (deleted s)"
    and "D \<inter> set (deleted s) = {}" and "A = (D - {nullptr}) \<union> set (deleted s)"
    and "data s ` L = D"
  shows "accounts s L A"
  using assms by (simp add: accounts_def)

lemma accounts_elim:
  assumes "accounts s L A"
  shows "distinct (deleted s)" and "nullptr \<notin> set (deleted s)"
    and "data s ` L \<inter> set (deleted s) = {}" and "A = (data s ` L - {nullptr}) \<union> set (deleted s)"
  using assms by (simp_all add: accounts_def)

lemma image_insert_upd:
  assumes "\<forall>a\<in>L. g a = f a"
  shows "g ` insert x L = insert (g x) (f ` L)"
proof -
  have "g ` L = f ` L" by (rule image_cong [OF refl]) (use assms in simp)
  then show ?thesis by (simp only: image_insert)
qed

lemma ctor_accounts:
  assumes "accounts s L A" and "this \<notin> L" and "p = nullptr \<or> p \<notin> A"
  shows "accounts (ctor s this p) (insert this L) (if p = nullptr then A else insert p A)"
proof (rule accounts_intro [where D = "insert p (data s ` L)"])
  note e = accounts_elim [OF assms(1)]
  show "distinct (deleted (ctor s this p))" using e(1) by (simp add: ctor_fields)
  show "nullptr \<notin> set (deleted (ctor s this p))" using e(2) by (simp add: ctor_fields)
  have pd: "p \<noteq> nullptr \<Longrightarrow> p \<notin> set (deleted s)" using assms(3) e(4) by blast
  show "insert p (data s ` L) \<inter> set (deleted (ctor s this p)) = {}"
    unfolding ctor_fields using e(2,3) pd by blast
  show "(if p = nullptr then A else insert p A) =
          (insert p (data s ` L) - {nullptr}) \<union> set (deleted (ctor s this p))"
    unfolding ctor_fields e(4) by (cases "p = nullptr"; simp; blast)
  have "\<forall>a\<in>L. data (ctor s this p) a = data s a"
    using assms(2) by (auto simp: ctor_fields)
  then have "data (ctor s this p) ` insert this L = insert (data (ctor s this p) this) (data s ` L)"
    by (rule image_insert_upd)
  moreover have "data (ctor s this p) this = p" by (simp add: ctor_fields)
  ultimately show "data (ctor s this p) ` insert this L = insert p (data s ` L)"
    by (simp only:)
qed


lemma accounts_same:
  assumes "accounts s L A" and "deleted s' = deleted s" and "data s' ` L' = D"
    and "D - {nullptr} = data s ` L - {nullptr}"
  shows "accounts s' L' A"
proof (rule accounts_intro [where D = D])
  note e = accounts_elim [OF assms(1)]
  show "distinct (deleted s')" "nullptr \<notin> set (deleted s')" using e(1,2) assms(2) by simp_all
  have "D \<subseteq> insert nullptr (data s ` L)" using assms(4) by blast
  then show "D \<inter> set (deleted s') = {}" unfolding assms(2) using e(2,3) by blast
  show "A = D - {nullptr} \<union> set (deleted s')" unfolding assms(2,4) by (rule e(4))
  show "data s' ` L' = D" by (rule assms(3))
qed

lemma copy_ctor_accounts:
  assumes "accounts s L A" and "this \<notin> L" and "other \<in> L"
  shows "accounts (copy_ctor s this other) (insert this L) A"
proof (rule accounts_same [OF assms(1), where D = "insert (data s other) (data s ` L)"])
  show "deleted (copy_ctor s this other) = deleted s" by simp
  have "\<forall>a\<in>L. data (copy_ctor s this other) a = data s a"
    using assms(2) by (auto simp: data_copy_ctor)
  then have "data (copy_ctor s this other) ` insert this L =
      insert (data (copy_ctor s this other) this) (data s ` L)"
    by (rule image_insert_upd)
  moreover have "data (copy_ctor s this other) this = data s other" by (simp add: data_copy_ctor)
  ultimately show "data (copy_ctor s this other) ` insert this L = insert (data s other) (data s ` L)"
    by (simp only:)
  have "data s other \<in> data s ` L" using assms(3) by (rule imageI)
  then show "insert (data s other) (data s ` L) - {nullptr} = data s ` L - {nullptr}" by blast
qed




lemma set_move_elem: "x \<noteq> n \<Longrightarrow> A = (insert x D - {n}) \<union> E \<Longrightarrow> A = (D - {n}) \<union> insert x E"
  by auto

lemma set_drop_null: "x = n \<Longrightarrow> D - {n} = insert x D - {n}"
  by auto

lemma image_split: "x \<in> L \<Longrightarrow> f ` L = insert (f x) (f ` (L - {x}))"
  by auto

lemma disjoint_insert_right: "D \<inter> E = {} \<Longrightarrow> x \<notin> D \<Longrightarrow> D \<inter> insert x E = {}"
  by auto

lemma disjoint_subset_left: "D' \<subseteq> D \<Longrightarrow> D \<inter> E = {} \<Longrightarrow> D' \<inter> E = {}"
  by auto

lemma dtor_accounts:
  assumes "rings_ok s L" and "accounts s L A" and "this \<in> L"
  shows "accounts (dtor s this) (L - {this}) A"
proof -
  have i: "data (dtor s this) ` (L - {this}) = data s ` (L - {this})"
    by (rule image_cong [OF refl]) (simp add: data_dtor)
  note u = sole_owner [OF assms(1,3)]
  note e = accounts_elim [OF assms(2)]
  have split: "data s ` L = insert (data s this) (data s ` (L - {this}))"
    using assms(3) by (rule image_split)
  have sub: "data s ` (L - {this}) \<subseteq> data s ` L" by (rule image_mono) simp
  show ?thesis
  proof (cases "unique s this")
    case True
    with u have nn: "data s this \<noteq> nullptr" by simp
    from True u have so: "\<forall>b\<in>L. b \<noteq> this \<longrightarrow> data s b \<noteq> data s this" by simp
    have ni: "data s this \<notin> data s ` (L - {this})"
    proof
      assume "data s this \<in> data s ` (L - {this})"
      then obtain b where b: "b \<in> L - {this}" "data s this = data s b" by (rule imageE)
      from b(1) have "b \<in> L" "b \<noteq> this" by simp_all
      with so have "data s b \<noteq> data s this" by simp
      with b(2) show False by simp
    qed
    have "data s this \<in> data s ` L" using assms(3) by (rule imageI)
    with e(3) have nd: "data s this \<notin> set (deleted s)" by (rule disjoint_iff [THEN iffD1, rule_format])
    have del: "deleted (dtor s this) = data s this # deleted s" using True by (simp add: deleted_dtor)
    show ?thesis
    proof (rule accounts_intro [where D = "data s ` (L - {this})"])
      show "distinct (deleted (dtor s this))" unfolding del using e(1) nd by simp
      show "nullptr \<notin> set (deleted (dtor s this))" unfolding del using e(2) nn by simp
      have "data s ` (L - {this}) \<inter> set (deleted s) = {}"
        using sub e(3) by (rule disjoint_subset_left)
      then have "data s ` (L - {this}) \<inter> insert (data s this) (set (deleted s)) = {}"
        using ni by (rule disjoint_insert_right)
      then show "data s ` (L - {this}) \<inter> set (deleted (dtor s this)) = {}"
        unfolding del by simp
      have "A = (insert (data s this) (data s ` (L - {this})) - {nullptr}) \<union> set (deleted s)"
        using e(4) split by simp
      with nn have "A = (data s ` (L - {this}) - {nullptr}) \<union> insert (data s this) (set (deleted s))"
        by (rule set_move_elem)
      then show "A = data s ` (L - {this}) - {nullptr} \<union> set (deleted (dtor s this))"
        unfolding del by simp
      show "data (dtor s this) ` (L - {this}) = data s ` (L - {this})" by (rule i)
    qed
  next
    case False
    have del: "deleted (dtor s this) = deleted s" using False by (simp add: deleted_dtor)
    have "data s ` (L - {this}) - {nullptr} = data s ` L - {nullptr}"
    proof (cases "data s this = nullptr")
      case True
      then have "data s ` (L - {this}) - {nullptr} =
          insert (data s this) (data s ` (L - {this})) - {nullptr}" by (rule set_drop_null)
      with split show ?thesis by simp
    next
      case nn: False
      with u False have "\<not> (\<forall>b\<in>L. b \<noteq> this \<longrightarrow> data s b \<noteq> data s this)" by simp
      then obtain b where "b \<in> L" "b \<noteq> this" "data s b = data s this" by blast
      then have "data s ` (L - {this}) = data s ` L" by (rule image_minus_dup)
      then show ?thesis by simp
    qed
    with assms(2) del i show ?thesis by (rule accounts_same)
  qed
qed


lemma release_accounts:
  assumes "accounts s L A" and "other \<in> L"
    and "b \<in> L" and "b \<noteq> other" and "data s b = data s other"
  shows "accounts ((remove_ring s other)\<lparr>data := (data (remove_ring s other))(other := nullptr)\<rparr>) L A"
proof -
  let ?s = "(remove_ring s other)\<lparr>data := (data (remove_ring s other))(other := nullptr)\<rparr>"
  have "\<forall>a\<in>L - {other}. data ?s a = data s a" by simp
  then have "data ?s ` insert other (L - {other}) = insert (data ?s other) (data s ` (L - {other}))"
    by (rule image_insert_upd)
  moreover have "insert other (L - {other}) = L" using assms(2) by blast
  moreover have "data ?s other = nullptr" by simp
  ultimately have "data ?s ` L = insert nullptr (data s ` (L - {other}))"
    by (simp only:)
  moreover have "data s ` (L - {other}) = data s ` L"
    using assms(3-5) by (rule image_minus_dup)
  ultimately have i: "data ?s ` L = insert nullptr (data s ` L)" by simp
  have d: "deleted ?s = deleted s" by simp
  have "insert nullptr (data s ` L) - {nullptr} = data s ` L - {nullptr}" by blast
  with assms(1) d i show ?thesis by (rule accounts_same)
qed












lemma fresh_not_held:
  assumes "accounts s L A" and "p = nullptr \<or> p \<notin> A"
  shows "p \<noteq> nullptr \<longrightarrow> (\<forall>a\<in>L. data s a \<noteq> p)"
proof (intro impI ballI notI)
  fix a assume "p \<noteq> nullptr" "a \<in> L" "data s a = p"
  then have "p \<in> data s ` L - {nullptr}" by blast
  then have "p \<in> A" unfolding accounts_elim(4) [OF assms(1)] by (rule UnI1)
  with assms(2) \<open>p \<noteq> nullptr\<close> show False by simp
qed

lemma ring_inv_ctor:
  assumes "ring_inv s L A" and "this \<notin> L" and "p = nullptr \<or> p \<notin> A"
  shows "ring_inv (ctor s this p) (insert this L) (if p = nullptr then A else insert p A)"
proof -
  from assms(1) have r: "rings_ok s L" and a: "accounts s L A" by (simp_all add: ring_inv_def)
  have "rings_ok (ctor s this p) (insert this L)"
    using r assms(2) fresh_not_held [OF a assms(3)] by (rule ctor_rings)
  moreover have "accounts (ctor s this p) (insert this L) (if p = nullptr then A else insert p A)"
    using a assms(2,3) by (rule ctor_accounts)
  ultimately show ?thesis by (simp only: ring_inv_def simp_thms)
qed

lemma ring_inv_copy_ctor:
  assumes "ring_inv s L A" and "this \<notin> L" and "other \<in> L"
  shows "ring_inv (copy_ctor s this other) (insert this L) A"
  using assms copy_ctor_rings [of s L this other] copy_ctor_accounts [of s L A this other]
  by (simp add: ring_inv_def)

lemma ring_inv_dtor:
  assumes "ring_inv s L A" and "this \<in> L"
  shows "ring_inv (dtor s this) (L - {this}) A"
  using assms dtor_rings [of s L this] dtor_accounts [of s L A this]
  by (simp add: ring_inv_def)

lemma insert_minus_same: "x \<in> L \<Longrightarrow> insert x (L - {x}) = L"
  by auto

lemma ring_inv_destroy_copy:
  assumes "ring_inv s L A" and "this \<in> L" and "other \<in> L" and "other \<noteq> this"
  shows "ring_inv (copy_ctor (dtor s this) this other) L A"
proof -
  have "ring_inv (dtor s this) (L - {this}) A" using assms(1,2) by (rule ring_inv_dtor)
  then have "ring_inv (copy_ctor (dtor s this) this other) (insert this (L - {this})) A"
    by (rule ring_inv_copy_ctor) (use assms(3,4) in simp_all)
  then show ?thesis by (simp only: insert_minus_same [OF assms(2)])
qed

lemma ring_inv_copy_assign:
  assumes "ring_inv s L A" and "this \<in> L" and "other \<in> L"
  shows "ring_inv (copy_assign s this other) L A"
proof (cases "other = this")
  case True
  then show ?thesis using assms(1) by (simp add: copy_assign_def)
next
  case False
  then show ?thesis using ring_inv_destroy_copy [OF assms False] by (simp add: copy_assign_def)
qed


lemma reset_eq: "reset s this p = ctor (dtor s this) this p"
proof -
  have "nxt (dtor s this) this = this" "prev (dtor s this) this = this"
    using dtor_single [of s this] by (simp_all add: is_ring_def)
  then have "super_linked_ptr (dtor s this) this = dtor s this"
    by (intro heap.equality) (simp_all add: fun_upd_idem)
  then show ?thesis by (simp add: reset_def ctor_def dtor_def Let_def)
qed

lemma ring_inv_reset:
  assumes "ring_inv s L A" and "this \<in> L" and "p = nullptr \<or> p \<notin> A"
  shows "ring_inv (reset s this p) L (if p = nullptr then A else insert p A)"
proof -
  have "ring_inv (dtor s this) (L - {this}) A" using assms(1,2) by (rule ring_inv_dtor)
  then have "ring_inv (ctor (dtor s this) this p) (insert this (L - {this}))
      (if p = nullptr then A else insert p A)"
    by (rule ring_inv_ctor) (use assms(3) in simp_all)
  then show ?thesis by (simp only: insert_minus_same [OF assms(2)] reset_eq)
qed

lemma ring_inv_release:
  assumes "ring_inv s L A" and "other \<in> L"
    and "b \<in> L" and "b \<noteq> other" and "data s b = data s other"
  shows "ring_inv ((remove_ring s other)\<lparr>data := (data (remove_ring s other))(other := nullptr)\<rparr>) L A"
  using assms release_rings [of s L other] release_accounts [of s L A other b]
  by (simp add: ring_inv_def)

lemma ring_inv_move_ctor:
  assumes "ring_inv s L A" and "this \<notin> L" and "other \<in> L"
  shows "ring_inv (move_ctor s this other) (insert this L) A"
proof -
  have ne: "this \<noteq> other" using assms(2,3) by auto
  have "ring_inv (copy_ctor s this other) (insert this L) A"
    using assms by (rule ring_inv_copy_ctor)
  then show ?thesis unfolding move_ctor_eq
    by (rule ring_inv_release [where b = this]) (use assms(3) ne in \<open>simp_all add: data_copy_ctor\<close>)
qed

lemma move_assign_self: "move_assign s this this = reset s this nullptr"
proof -
  let ?d = "dtor s this"
  have l: "nxt ?d this = this" "prev ?d this = this"
    using dtor_single [of s this] by (simp_all add: is_ring_def)
  have "copy_ctor ?d this this = ?d"
    by (intro heap.equality)
       (simp_all add: copy_ctor_def Let_def nxt_insert prev_insert l fun_upd_idem)
  moreover have "remove_ring ?d this = ?d"
    by (intro heap.equality) (simp_all add: nxt_remove prev_remove l fun_upd_idem)
  ultimately show ?thesis by (simp add: move_assign_def Let_def reset_def dtor_def)
qed

lemma ring_inv_move_assign:
  assumes "ring_inv s L A" and "this \<in> L" and "other \<in> L"
  shows "ring_inv (move_assign s this other) L A"
proof (cases "other = this")
  case True
  have "ring_inv (reset s this nullptr) L (if nullptr = nullptr then A else insert nullptr A)"
    using assms(1,2) by (rule ring_inv_reset) simp
  then show ?thesis using True by (simp add: move_assign_self)
next
  case False
  have "ring_inv (copy_ctor (dtor s this) this other) L A"
    using assms False by (rule ring_inv_destroy_copy)
  then show ?thesis unfolding move_assign_eq
    by (rule ring_inv_release [where b = this])
       (use assms(2,3) False in \<open>simp_all add: data_copy_ctor\<close>)
qed


section \<open>The knowledge of the program and the memory\<close>

lemma ghost_simps [simp]:
  "live (adopt g this T ob) = insert this (live g)"
  "handed (adopt g this T ob) = (if ob = nullptr then handed g else insert ob (handed g))"
  "own (adopt g this T ob) = (own g)(this := ob)"
  "ty (adopt g this T ob) = (ty g)(this := T)"
  "freed (adopt g this T ob) = freed g"
  "live (share g this T other) = insert this (live g)"
  "handed (share g this T other) = handed g"
  "own (share g this T other) = (own g)(this := own g other)"
  "ty (share g this T other) = (ty g)(this := T)"
  "freed (share g this T other) = freed g"
  "live (give_up s g this) = live g - {this}"
  "handed (give_up s g this) = handed g"
  "own (give_up s g this) = own g"
  "ty (give_up s g this) = ty g"
  "freed (give_up s g this) = (if unique s this then own g this # freed g else freed g)"
  "live (emptied g other) = live g"
  "handed (emptied g other) = handed g"
  "own (emptied g other) = (own g)(other := nullptr)"
  "ty (emptied g other) = ty g"
  "freed (emptied g other) = freed g"
  "live (exchanged g this other) = live g"
  "handed (exchanged g this other) = handed g"
  "own (exchanged g this other) = (own g)(this := own g other, other := own g this)"
  "ty (exchanged g this other) = ty g"
  "freed (exchanged g this other) = freed g"
  by (simp_all add: adopt_def share_def give_up_def emptied_def exchanged_def)














section \<open>\<^verbatim>\<open>swap\<close> in general\<close>






section \<open>Every operation keeps the coupling\<close>














section \<open>One ring per object, freed once\<close>














section \<open>Converting assignment\<close>












end
